theory Spec2Isabelle
  imports Complex_Main "HOL-Library.Char_ord" "HOL-Library.List_Lexorder"
begin

section \<open>JavaScript strings and the version heuristics of the conflict analyzer\<close>

text \<open>
  Strings are \<open>char list\<close>. \<open>String.prototype.startsWith\<close> and
  \<open>String.prototype.includes\<close> are written out; the comparison of names in Cypher
  (\<open>p1.name < p2.name\<close>, \<open>ORDER BY\<close>) is the lexicographic order on
  \<open>char list\<close>.
\<close>

definition startsWith :: "string \<Rightarrow> string \<Rightarrow> bool" where
  "startsWith s p = (take (length p) s = p)"

fun includes_str :: "string \<Rightarrow> string \<Rightarrow> bool" where
  "includes_str [] sub = (sub = [])"
| "includes_str (c # cs) sub = (startsWith (c # cs) sub \<or> includes_str cs sub)"

text \<open>The regular expression class \<open>\d\<close>: the ten ASCII digits.\<close>

definition isDigit :: "char \<Rightarrow> bool" where
  "isDigit c = (c \<in> set ''0123456789'')"

definition digitValue :: "char \<Rightarrow> nat" where
  "digitValue c = of_char c - 48"

text \<open>
  A JavaScript number that is not negative and has no fraction: a double, given by the
  integer it holds, or \<open>Infinity\<close>. \<open>===\<close> on two such numbers is equality.
\<close>

datatype number = Finite nat | Infinity

text \<open>
  The Number value of a natural number: the nearest double, the one with the even
  significand when two are equally near, and \<open>Infinity\<close> from \<open>2^1024\<close> on.
  Below \<open>2^53\<close> every integer is a double. From there on \<open>exponent n\<close> is the
  number of low bits that do not fit the 53 bits of the significand; they are rounded
  away.
\<close>

fun exponent :: "nat \<Rightarrow> nat" where
  "exponent n = (if n < 2 ^ 53 then 0 else Suc (exponent (n div 2)))"

declare exponent.simps [simp del]

definition toNumber :: "nat \<Rightarrow> number" where
  "toNumber n =
    (if n < 2 ^ 53 then Finite n
     else
       let e = exponent n; q = n div 2 ^ e; r = n mod 2 ^ e; half = 2 ^ (e - 1);
           m = (if r < half \<or> (r = half \<and> even q) then q else q + 1)
       in if m * 2 ^ e < 2 ^ 1024 then Finite (m * 2 ^ e) else Infinity)"

text \<open>
  \<open>parseInt\<close> is only ever applied to a run of digits here: the Number value of the
  integer that the run denotes in decimal notation, as Node computes it.
\<close>

definition decimal :: "string \<Rightarrow> nat" where
  "decimal ds = foldl (\<lambda>n c. 10 * n + digitValue c) 0 ds"

definition parseInt :: "string \<Rightarrow> number" where
  "parseInt ds = toNumber (decimal ds)"

text \<open>
  \<open>getMajor\<close>: \<open>v.match(/\d+/)\<close> is the leftmost, longest run of digits;
  \<open>None\<close> is JavaScript's \<open>null\<close>.
\<close>

definition getMajor :: "string \<Rightarrow> number option" where
  "getMajor v =
    (case dropWhile (\<lambda>c. \<not> isDigit c) v of
       [] \<Rightarrow> None
     | d # ds \<Rightarrow> Some (parseInt (takeWhile isDigit (d # ds))))"

text \<open>
  \<open>getMinor\<close>: \<open>v.match(/\d+\.(\d+)/)\<close>. The match is tried at each position from
  the left: a greedy run of digits, a dot, and one more digit at least; the group is the
  run of digits after the dot.
\<close>

fun getMinor :: "string \<Rightarrow> number option" where
  "getMinor [] = None"
| "getMinor (c # cs) =
    (if isDigit c then
       (case dropWhile isDigit cs of
          dot # d # ds \<Rightarrow>
            if dot = CHR ''.'' \<and> isDigit d
            then Some (parseInt (takeWhile isDigit (d # ds)))
            else getMinor cs
        | _ \<Rightarrow> getMinor cs)
     else getMinor cs)"

definition isCompatible :: "string \<Rightarrow> string \<Rightarrow> bool" where
  "isCompatible version1 version2 =
    (if version1 = version2 then True
     else
       let major1 = getMajor version1; major2 = getMajor version2 in
       if startsWith version1 ''^'' \<and> startsWith version2 ''^'' then major1 = major2
       else if startsWith version1 ''~'' \<and> startsWith version2 ''~'' then
         major1 = major2 \<and> getMinor version1 = getMinor version2
       else False)"

section \<open>Values that cross the store gateway\<close>

text \<open>
  A failed query is an \<open>Error\<close>; only its message is ever read. Results are sums,
  \<open>Inl\<close> for a thrown error.

  The driver is created by \<open>neo4j.driver(uri, auth)\<close> without
  \<open>disableLosslessIntegers\<close> (\<open>neo4jClient.js\<close>, \<open>connect\<close>), so a Cypher
  integer reaches JavaScript as an \<open>Integer\<close> object with a \<open>low\<close> and a
  \<open>high\<close> word, as \<open>getStats\<close> and \<open>linkPackageDependencies\<close> note
  (\<open>?.low\<close>). A Cypher float and every number made in JavaScript is a plain number.
  Only the values the analyzers handle are modelled: numbers (exact rationals stand for the
  doubles), \<open>Integer\<close> objects and \<open>null\<close>.
\<close>

type_synonym error = string

datatype jsval = JNum rat | JInteger int | JNull

text \<open>
  \<open>===\<close>: numbers compare by value, \<open>null\<close> equals \<open>null\<close>, and an
  \<open>Integer\<close> object is never strictly equal to a number.
\<close>

fun strict_eq :: "jsval \<Rightarrow> jsval \<Rightarrow> bool" where
  "strict_eq (JNum a) (JNum b) = (a = b)"
| "strict_eq JNull JNull = True"
| "strict_eq _ _ = False"

text \<open>
  \<open>parseFloat(x.toFixed(2))\<close> on a number that is not negative, in exact
  arithmetic: the nearest multiple of a hundredth, the larger one of two. The code rounds
  the double that holds the average, which can lie just below a tie that the exact
  average hits; no property below depends on an average.
\<close>

definition toFixed2 :: "rat \<Rightarrow> rat" where
  "toFixed2 x = of_int \<lfloor>x * 100 + 1 / 2\<rfloor> / 100"

text \<open>
  \<open>s || d\<close> on a string field that may be missing: the empty string stands for both
  falsy values, \<open>undefined\<close> and \<open>''\<close>.
\<close>

definition or_else :: "string \<Rightarrow> string \<Rightarrow> string" where
  "or_else s d = (if s = [] then d else s)"

section \<open>The graph store\<close>

text \<open>
  Nodes are identified by label and name (\<open>Project.name\<close>, \<open>Package.name\<close>) or
  path (\<open>File.path\<close>), a \<open>DEPENDS_ON\<close> relationship by its two end nodes and a
  \<open>HAS_FILE\<close> relationship by project and file. Each kind is an association list in
  creation order. The timestamps (\<open>updatedAt\<close>, \<open>createdAt\<close>) are left out.
  A property that a relationship may lack is an option.
\<close>

datatype node_ref = ProjectNode string | PackageNode string

record project_props =
  proj_path :: string
  proj_language :: string
  proj_version :: string
  proj_description :: string
  proj_totalDependencies :: nat

record package_props =
  pkg_version :: string
  pkg_operator :: string
  pkg_language :: string

record file_props =
  file_name :: string
  file_type :: string
  file_language :: string

record edge_props =
  versionConstraint :: string
  r_type :: string
  direct :: "bool option"
  lineNumber :: "nat option"
  source :: "string option"

type_synonym edge = "(node_ref \<times> node_ref) \<times> edge_props"

record store =
  projects :: "(string \<times> project_props) list"
  packages :: "(string \<times> package_props) list"
  files :: "(string \<times> file_props) list"
  depends_on :: "edge list"
  has_file :: "(string \<times> string) list"

definition empty_store :: store where
  "empty_store = \<lparr>projects = [], packages = [], files = [], depends_on = [], has_file = []\<rparr>"

definition keys :: "('k \<times> 'v) list \<Rightarrow> 'k set" where
  "keys xs = fst ` set xs"

text \<open>
  \<open>MERGE (x {key}) SET x.a = ...\<close>: every entry under the key gets the properties set;
  without such an entry one is created from \<open>fresh\<close> and set.
\<close>

definition merge_set :: "'k \<Rightarrow> 'v \<Rightarrow> ('v \<Rightarrow> 'v) \<Rightarrow> ('k \<times> 'v) list \<Rightarrow> ('k \<times> 'v) list" where
  "merge_set k fresh upd xs =
    (if k \<in> fst ` set xs
     then map (\<lambda>(k', v). if k' = k then (k', upd v) else (k', v)) xs
     else xs @ [(k, upd fresh)])"

text \<open>\<open>MERGE ... ON CREATE SET\<close>: an entry that exists is left as it is.\<close>

definition merge_on_create :: "'k \<Rightarrow> 'v \<Rightarrow> ('k \<times> 'v) list \<Rightarrow> ('k \<times> 'v) list" where
  "merge_on_create k v xs = (if k \<in> fst ` set xs then xs else xs @ [(k, v)])"

text \<open>
  The client (\<open>neo4jClient.js\<close>): the store it is connected to, whether the APOC
  plugin is installed there, and whether the store is out of reach, with the message
  \<open>session.run\<close> then throws. \<open>executeQuery\<close> logs and rethrows. A query is a
  function from the store to its rows and the store it leaves.
\<close>

record client =
  graph :: store
  apocInstalled :: bool
  outage :: "error option"

definition executeQuery :: "client \<Rightarrow> (store \<Rightarrow> 'r \<times> store) \<Rightarrow> error + ('r \<times> client)" where
  "executeQuery c q =
    (case outage c of
       Some e \<Rightarrow> Inl e
     | None \<Rightarrow> (case q (graph c) of (r, g') \<Rightarrow> Inr (r, c\<lparr>graph := g'\<rparr>)))"

text \<open>
  A query that calls \<open>apoc.coll.toSet\<close> fails on a store without the plugin, with a
  message that names the function.
\<close>

definition unknownFunction :: error where
  "unknownFunction = ''Unknown function apoc.coll.toSet''"

definition executeApocQuery :: "client \<Rightarrow> (store \<Rightarrow> 'r \<times> store) \<Rightarrow> error + ('r \<times> client)" where
  "executeApocQuery c q =
    (if outage c = None \<and> \<not> apocInstalled c then Inl unknownFunction else executeQuery c q)"

section \<open>The graph builder (\<open>src/graph/builder.js\<close>)\<close>

text \<open>
  The manifest record a parser hands over, and one of its dependency records. A field
  read through \<open>||\<close> holds its falsy value when the parser left it out.
\<close>

record dependency =
  d_name :: string
  d_version :: string
  d_versionRange :: string
  d_operator :: string
  d_language :: string
  d_type :: string
  d_lineNumber :: nat

record manifest =
  projectName :: string
  projectPath :: string
  m_language :: string
  m_version :: string
  m_description :: string
  dependencyFile :: string
  m_dependencies :: "dependency list"
  totalDependencies :: nat

text \<open>\<open>_createProjectNode\<close>: \<open>MERGE (p:Project {name: $name}) SET ...\<close>.\<close>

definition projectQuery :: "manifest \<Rightarrow> store \<Rightarrow> unit \<times> store" where
  "projectQuery parsedData g =
    (let p = \<lparr>proj_path = projectPath parsedData, proj_language = m_language parsedData,
               proj_version = or_else (m_version parsedData) ''1.0.0'',
               proj_description = or_else (m_description parsedData) '''',
               proj_totalDependencies = totalDependencies parsedData\<rparr>
     in ((), g\<lparr>projects := merge_set (projectName parsedData) p (\<lambda>_. p) (projects g)\<rparr>))"

definition createProjectNode :: "client \<Rightarrow> manifest \<Rightarrow> error + (unit \<times> client)" where
  "createProjectNode c parsedData = executeQuery c (projectQuery parsedData)"

text \<open>
  \<open>_createDependencyNodes\<close>, first query of the loop body:
  \<open>MERGE (pkg:Package {name: $name}) SET pkg.version = ..., pkg.operator = ...,
  pkg.language = ...\<close>.
\<close>

definition packageQuery :: "dependency \<Rightarrow> store \<Rightarrow> unit \<times> store" where
  "packageQuery dep g =
    (let p = \<lparr>pkg_version = d_version dep, pkg_operator = or_else (d_operator dep) '''',
               pkg_language = or_else (d_language dep) ''javascript''\<rparr>
     in ((), g\<lparr>packages := merge_set (d_name dep) p (\<lambda>_. p) (packages g)\<rparr>))"

text \<open>
  Second query of the loop body: both \<open>MATCH\<close>es must find their node, then
  \<open>MERGE (proj)-[r:DEPENDS_ON]->(pkg) SET r.versionConstraint = ..., r.type = ...,
  r.direct = true, r.lineNumber = ...\<close>. The properties that are not set stay.
\<close>

definition new_edge :: edge_props where
  "new_edge = \<lparr>versionConstraint = '''', r_type = '''', direct = None, lineNumber = None,
     source = None\<rparr>"

definition relationshipQuery :: "string \<Rightarrow> dependency \<Rightarrow> store \<Rightarrow> unit \<times> store" where
  "relationshipQuery pn dep g =
    (if pn \<in> fst ` set (projects g) \<and> d_name dep \<in> fst ` set (packages g)
     then ((), g\<lparr>depends_on :=
        merge_set (ProjectNode pn, PackageNode (d_name dep)) new_edge
          (\<lambda>r. r\<lparr>versionConstraint := or_else (d_versionRange dep) (d_version dep),
                  r_type := or_else (d_type dep) ''production'',
                  direct := Some True,
                  lineNumber := Some (d_lineNumber dep)\<rparr>)
          (depends_on g)\<rparr>)
     else ((), g))"

fun dependencyLoop ::
  "client \<Rightarrow> string \<Rightarrow> dependency list \<Rightarrow> nat \<Rightarrow> error + (nat \<times> client)" where
  "dependencyLoop c pn [] packagesCreated = Inr (packagesCreated, c)"
| "dependencyLoop c pn (dep # deps) packagesCreated =
    (case executeQuery c (packageQuery dep) of
       Inl e \<Rightarrow> Inl e
     | Inr (_, c1) \<Rightarrow>
        (case executeQuery c1 (relationshipQuery pn dep) of
           Inl e \<Rightarrow> Inl e
         | Inr (_, c2) \<Rightarrow> dependencyLoop c2 pn deps (packagesCreated + 1)))"

definition createDependencyNodes ::
  "client \<Rightarrow> string \<Rightarrow> dependency list \<Rightarrow> error + (nat \<times> client)" where
  "createDependencyNodes c pn deps = dependencyLoop c pn deps 0"

text \<open>
  \<open>_createFileNode\<close>: \<open>MATCH (proj:Project {name: $projectName})
  MERGE (f:File {path: $filePath}) SET ... MERGE (proj)-[:HAS_FILE]->(f)\<close>;
  the file name is \<open>dependencyFile.split('/').pop()\<close>.
\<close>

definition split_pop :: "string \<Rightarrow> string" where
  "split_pop s = rev (takeWhile (\<lambda>c. c \<noteq> CHR ''/'') (rev s))"

definition fileQuery :: "manifest \<Rightarrow> store \<Rightarrow> unit \<times> store" where
  "fileQuery parsedData g =
    (if projectName parsedData \<in> fst ` set (projects g)
     then
       (let f = \<lparr>file_name = split_pop (dependencyFile parsedData),
                  file_type = ''dependency_manifest'', file_language = m_language parsedData\<rparr>
        in ((), g\<lparr>files := merge_set (dependencyFile parsedData) f (\<lambda>_. f) (files g),
                    has_file := List.insert (projectName parsedData, dependencyFile parsedData)
                                 (has_file g)\<rparr>))
     else ((), g))"

definition createFileNode :: "client \<Rightarrow> manifest \<Rightarrow> error + (unit \<times> client)" where
  "createFileNode c parsedData = executeQuery c (fileQuery parsedData)"

text \<open>\<open>buildProjectGraph\<close>: the three steps in order; the first error is rethrown.\<close>

definition buildProjectGraph :: "client \<Rightarrow> manifest \<Rightarrow> error + (bool \<times> client)" where
  "buildProjectGraph c parsedData =
    (case createProjectNode c parsedData of
       Inl e \<Rightarrow> Inl e
     | Inr (_, c1) \<Rightarrow>
        (case createDependencyNodes c1 (projectName parsedData) (m_dependencies parsedData) of
           Inl e \<Rightarrow> Inl e
         | Inr (packagesCreated, c2) \<Rightarrow>
            (case createFileNode c2 parsedData of
               Inl e \<Rightarrow> Inl e
             | Inr (_, c3) \<Rightarrow> Inr (True, c3))))"

text \<open>
  The rows of \<open>(proj:Project)-[r:DEPENDS_ON]->(pkg:Package)\<close> and of
  \<open>(p1:Package)-[r:DEPENDS_ON]->(p2:Package)\<close>: names of the end nodes and the
  relationship's properties.
\<close>

fun project_edge :: "edge \<Rightarrow> (string \<times> string \<times> edge_props) option" where
  "project_edge ((ProjectNode p, PackageNode d), r) = Some (p, d, r)"
| "project_edge _ = None"

fun package_edge :: "edge \<Rightarrow> (string \<times> string \<times> edge_props) option" where
  "package_edge ((PackageNode a, PackageNode b), r) = Some (a, b, r)"
| "package_edge _ = None"

definition project_edges :: "store \<Rightarrow> (string \<times> string \<times> edge_props) list" where
  "project_edges g = List.map_filter project_edge (depends_on g)"

definition package_edges :: "store \<Rightarrow> (string \<times> string \<times> edge_props) list" where
  "package_edges g = List.map_filter package_edge (depends_on g)"

text \<open>
  \<open>linkPackageDependencies\<close>. The three \<open>MATCH\<close>es give one row for each project,
  package of the same name and direct dependency of the project; \<open>MERGE (pkg)-[r2:DEPENDS_ON]->(depPkg)
  ON CREATE SET\<close> runs once for each row. The rows are read from relationships that leave
  a project, the writes add relationships that leave a package, so the rows are those of
  the store before the writes. \<open>count(DISTINCT r2)\<close> counts the relationships the rows
  end up bound to. The returned value is \<open>linksCreated?.low || linksCreated || 0\<close>:
  the low word of the \<open>Integer\<close>, a signed number of 32 bits, unless that is zero,
  and then the \<open>Integer\<close> object, which is truthy.
\<close>

definition low_word :: "nat \<Rightarrow> int" where
  "low_word n = (let w = n mod 2 ^ 32 in if w < 2 ^ 31 then int w else int w - 2 ^ 32)"

definition link_rows :: "store \<Rightarrow> (string \<times> string \<times> edge_props) list" where
  "link_rows g =
    [(pkg, depPkg, r).
       (proj, _) \<leftarrow> projects g,
       (pkg, _) \<leftarrow> packages g, pkg = proj,
       (p, depPkg, r) \<leftarrow> project_edges g, p = proj]"

definition derived_edge :: "edge_props \<Rightarrow> edge_props" where
  "derived_edge r = \<lparr>versionConstraint = versionConstraint r, r_type = r_type r,
     direct = None, lineNumber = None, source = Some ''derived''\<rparr>"

definition link_step :: "string \<times> string \<times> edge_props \<Rightarrow> edge list \<Rightarrow> edge list" where
  "link_step = (\<lambda>(pkg, depPkg, r).
     merge_on_create (PackageNode pkg, PackageNode depPkg) (derived_edge r))"

definition linkQuery :: "store \<Rightarrow> nat \<times> store" where
  "linkQuery g =
    (let rows = link_rows g in
     (length (remdups (map (\<lambda>(pkg, depPkg, r). (pkg, depPkg)) rows)),
      g\<lparr>depends_on := fold link_step rows (depends_on g)\<rparr>))"

definition linkPackageDependencies :: "client \<Rightarrow> error + (jsval \<times> client)" where
  "linkPackageDependencies c =
    (case executeQuery c linkQuery of
       Inl e \<Rightarrow> Inl e
     | Inr (linksCreated, c') \<Rightarrow>
         Inr (if low_word linksCreated \<noteq> 0 then JNum (of_int (low_word linksCreated))
              else JInteger (int linksCreated), c'))"

text \<open>
  \<open>analyzeProject\<close> (\<open>src/index.js\<close>) after parsing: it builds the project's graph
  and then links the packages. Its read-only queries and its printing are left out.
  \<open>analyzeProjects\<close> loads several projects one after the other, as the tool is run
  once for each project of a repository.
\<close>

definition analyzeProject :: "client \<Rightarrow> manifest \<Rightarrow> error + client" where
  "analyzeProject c parsedData =
    (case buildProjectGraph c parsedData of
       Inl e \<Rightarrow> Inl e
     | Inr (_, c1) \<Rightarrow>
        (case linkPackageDependencies c1 of
           Inl e \<Rightarrow> Inl e
         | Inr (_, c2) \<Rightarrow> Inr c2))"

fun analyzeProjects :: "client \<Rightarrow> manifest list \<Rightarrow> error + client" where
  "analyzeProjects c [] = Inr c"
| "analyzeProjects c (m # ms) =
    (case analyzeProject c m of Inl e \<Rightarrow> Inl e | Inr c' \<Rightarrow> analyzeProjects c' ms)"

section \<open>The cycle detector (\<open>CircularDependencyAnalyzer\<close>)\<close>

text \<open>
  \<open>findDirectCircularDependencies\<close>:
  \<open>MATCH (p1:Package)-[:DEPENDS_ON]->(p2:Package)-[:DEPENDS_ON]->(p1)
  WHERE p1.name < p2.name RETURN p1.name as package1, p2.name as package2\<close>.
  One row for each pair of relationships that matches; the two relationships of a
  match differ, since their directions differ and \<open>p1\<close> is not \<open>p2\<close>.
\<close>

record direct_cycle =
  package1 :: string
  package2 :: string

definition directCyclesQuery :: "store \<Rightarrow> direct_cycle list \<times> store" where
  "directCyclesQuery g =
    ([\<lparr>package1 = p1, package2 = p2\<rparr>.
        (p1, p2, _) \<leftarrow> package_edges g,
        (q2, q1, _) \<leftarrow> package_edges g, q2 = p2 \<and> q1 = p1,
        p1 < p2], g)"

definition findDirectCircularDependencies :: "client \<Rightarrow> error + direct_cycle list" where
  "findDirectCircularDependencies c =
    (case executeQuery c directCyclesQuery of
       Inl e \<Rightarrow> Inl e
     | Inr (result, _) \<Rightarrow>
         Inr (map (\<lambda>record. \<lparr>package1 = package1 record, package2 = package2 record\<rparr>)
                result))"

text \<open>
  \<open>MATCH path = (p:Package)-[:DEPENDS_ON*]->(p)\<close>: the paths of one relationship or
  more from a package back to itself, no relationship used twice. \<open>trails\<close> lists the
  paths from \<open>cur\<close> to \<open>tgt\<close> over the relationships still unused; a path is no longer
  than the number of relationships, which bounds the search.
\<close>

fun trails :: "nat \<Rightarrow> edge list \<Rightarrow> node_ref \<Rightarrow> node_ref \<Rightarrow> edge list list" where
  "trails 0 es cur tgt = []"
| "trails (Suc n) es cur tgt =
    concat (map (\<lambda>e.
      if fst (fst e) = cur
      then (if snd (fst e) = tgt then [[e]] else []) @
           map ((#) e) (trails n (remove1 e es) (snd (fst e)) tgt)
      else []) es)"

definition cyclePaths :: "store \<Rightarrow> edge list list" where
  "cyclePaths g =
    concat (map (\<lambda>(p, _).
      filter (\<lambda>path. length path > 1)
        (trails (length (depends_on g)) (depends_on g) (PackageNode p) (PackageNode p)))
      (packages g))"

text \<open>
  \<open>getStatistics\<close> of the cycle detector. The query aggregates without a grouping key,
  so it returns one row also when nothing matches: the count is then zero and
  \<open>min\<close>, \<open>max\<close> and \<open>avg\<close> are \<open>null\<close>. Counts and lengths are Cypher integers,
  the average is a float. Whatever is thrown inside the \<open>try\<close> is caught, and the
  function returns \<open>null\<close> (\<open>None\<close>); an \<open>Integer\<close> has no \<open>toFixed\<close>.
\<close>

record cycle_stats =
  totalCycles :: jsval
  shortestCycle :: jsval
  longestCycle :: jsval
  avgCycleLength :: jsval

definition cycleStatsQuery :: "store \<Rightarrow> cycle_stats list \<times> store" where
  "cycleStatsQuery g =
    (let paths = cyclePaths g; lens = map length paths in
     ([\<lparr>totalCycles = JInteger (int (length (remdups paths))),
        shortestCycle = (if lens = [] then JNull else JInteger (int (Min (set lens)))),
        longestCycle = (if lens = [] then JNull else JInteger (int (Max (set lens)))),
        avgCycleLength = (if lens = [] then JNull
                          else JNum (of_nat (sum_list lens) / of_nat (length lens)))\<rparr>], g))"

definition all_zero :: cycle_stats where
  "all_zero = \<lparr>totalCycles = JNum 0, shortestCycle = JNum 0, longestCycle = JNum 0,
     avgCycleLength = JNum 0\<rparr>"

definition cycle_getStatistics :: "client \<Rightarrow> error + cycle_stats option" where
  "cycle_getStatistics c =
    (case executeQuery c cycleStatsQuery of
       Inl e \<Rightarrow> Inr None
     | Inr (result, _) \<Rightarrow>
        (case result of
           [] \<Rightarrow> Inr (Some all_zero)
         | record # _ \<Rightarrow>
            if strict_eq (totalCycles record) (JNum 0) then Inr (Some all_zero)
            else
              (case avgCycleLength record of
                 JNum x \<Rightarrow>
                   Inr (Some \<lparr>totalCycles = totalCycles record,
                              shortestCycle = shortestCycle record,
                              longestCycle = longestCycle record,
                              avgCycleLength = JNum (toFixed2 x)\<rparr>)
               | JNull \<Rightarrow>
                   Inr (Some \<lparr>totalCycles = totalCycles record,
                              shortestCycle = shortestCycle record,
                              longestCycle = longestCycle record,
                              avgCycleLength = JNum 0\<rparr>)
               | JInteger _ \<Rightarrow> Inr None)))"

section \<open>The conflict detector (\<open>VersionConflictAnalyzer\<close>)\<close>

record dep_entry =
  project :: string
  version :: string
  type :: string

record conflict =
  packageName :: string
  dependencies :: "dep_entry list"

text \<open>
  \<open>collect(DISTINCT ...)\<close>, \<open>[...new Set(xs)]\<close> and the order of the groups of an
  aggregation: each value once, at its first place.
\<close>

definition distinct_first :: "'a list \<Rightarrow> 'a list" where
  "distinct_first xs = rev (remdups (rev xs))"

text \<open>
  \<open>collect({project: proj.name, version: r.versionConstraint, type: r.type})\<close> over the
  rows of one package, and the names that \<open>pkg.name as packageName\<close> groups by.
\<close>

definition collect_deps :: "store \<Rightarrow> string \<Rightarrow> dep_entry list" where
  "collect_deps g name =
    [\<lparr>project = p, version = versionConstraint r, type = r_type r\<rparr>.
       (p, d, r) \<leftarrow> project_edges g, d = name]"

definition group_names :: "store \<Rightarrow> string list" where
  "group_names g = distinct_first (map (\<lambda>(p, d, r). d) (project_edges g))"

text \<open>
  The query of \<open>findVersionConflicts\<close>: \<open>collect(DISTINCT ...)\<close>,
  \<open>WHERE size(dependencies) > 1\<close>, \<open>WHERE size(apoc.coll.toSet(versions)) > 1\<close>,
  \<open>ORDER BY packageName\<close>.
\<close>

definition conflictsQuery :: "store \<Rightarrow> conflict list \<times> store" where
  "conflictsQuery g =
    (let grouped = map (\<lambda>n. \<lparr>packageName = n,
                               dependencies = distinct_first (collect_deps g n)\<rparr>)
                     (group_names g);
         multi = filter (\<lambda>row. length (dependencies row) > 1) grouped;
         differing = filter (\<lambda>row. card (set (map version (dependencies row))) > 1) multi
     in (sort_key packageName differing, g))"

text \<open>
  The query of \<open>findVersionConflictsBasic\<close>: \<open>collect(...)\<close>,
  \<open>WHERE size(dependencies) > 1\<close>, \<open>ORDER BY packageName\<close>; the function then
  filters the rows by the number of their distinct versions.
\<close>

definition conflictsBasicQuery :: "store \<Rightarrow> conflict list \<times> store" where
  "conflictsBasicQuery g =
    (let grouped = map (\<lambda>n. \<lparr>packageName = n, dependencies = collect_deps g n\<rparr>)
                     (group_names g);
         multi = filter (\<lambda>row. length (dependencies row) > 1) grouped
     in (sort_key packageName multi, g))"

definition findVersionConflictsBasic :: "client \<Rightarrow> error + conflict list" where
  "findVersionConflictsBasic c =
    (case executeQuery c conflictsBasicQuery of
       Inl e \<Rightarrow> Inl e
     | Inr (result, _) \<Rightarrow>
        Inr (filter (\<lambda>record.
               let versions = map version (dependencies record);
                   uniqueVersions = distinct_first versions
               in length uniqueVersions > 1) result))"

definition findVersionConflicts :: "client \<Rightarrow> error + conflict list" where
  "findVersionConflicts c =
    (case executeApocQuery c conflictsQuery of
       Inr (result, _) \<Rightarrow> Inr result
     | Inl e \<Rightarrow> if includes_str e ''apoc'' then findVersionConflictsBasic c else Inl e)"

text \<open>
  \<open>findPackageConflict\<close>. \<open>RETURN pkg.name as packageName, collect(...)\<close> groups by
  the name: no row when no project depends on the package, one row otherwise.
\<close>

definition packageConflictQuery :: "string \<Rightarrow> store \<Rightarrow> conflict list \<times> store" where
  "packageConflictQuery name g =
    (let deps = collect_deps g name in
     (if deps = [] then [] else [\<lparr>packageName = name, dependencies = deps\<rparr>], g))"

definition findPackageConflict :: "client \<Rightarrow> string \<Rightarrow> error + conflict option" where
  "findPackageConflict c name =
    (case executeQuery c (packageConflictQuery name) of
       Inl e \<Rightarrow> Inl e
     | Inr (result, _) \<Rightarrow>
        (case result of
           [] \<Rightarrow> Inr None
         | record # _ \<Rightarrow>
            let versions = map version (dependencies record);
                uniqueVersions = distinct_first versions
            in if length uniqueVersions = 1 then Inr None else Inr (Some record)))"

text \<open>
  \<open>getStatistics\<close> of the conflict detector. The last \<open>WITH\<close> of its query groups by
  \<open>totalPackages\<close>, so there is no row when no package is used by two projects.
  Every error inside the \<open>try\<close>, also one of \<open>findVersionConflicts\<close>, is caught and the
  function returns \<open>null\<close>.
\<close>

record conflict_stats =
  totalPackages :: jsval
  sharedPackages :: jsval
  conflictingPackages :: jsval

definition conflictStatsQuery :: "store \<Rightarrow> (jsval \<times> jsval) list \<times> store" where
  "conflictStatsQuery g =
    (let total = length (remdups (map fst (packages g)));
         usage = map (\<lambda>n. (n, length (filter (\<lambda>(p, d, r). d = n) (project_edges g))))
                   (group_names g);
         shared = filter (\<lambda>(n, usageCount). usageCount > 1) usage
     in (if shared = [] then []
         else [(JInteger (int total), JInteger (int (length shared)))], g))"

definition conflict_getStatistics :: "client \<Rightarrow> error + conflict_stats option" where
  "conflict_getStatistics c =
    (case executeQuery c conflictStatsQuery of
       Inl e \<Rightarrow> Inr None
     | Inr (result, _) \<Rightarrow>
        (case result of
           [] \<Rightarrow> Inr (Some \<lparr>totalPackages = JNum 0, sharedPackages = JNum 0,
                              conflictingPackages = JNum 0\<rparr>)
         | row # _ \<Rightarrow>
            (case findVersionConflicts c of
               Inl e \<Rightarrow> Inr None
             | Inr conflicts \<Rightarrow>
                Inr (Some \<lparr>totalPackages = fst row, sharedPackages = snd row,
                            conflictingPackages = JNum (of_nat (length conflicts))\<rparr>))))"

section \<open>Vocabulary of the properties\<close>

text \<open>
  The writes of one \<open>buildProjectGraph\<close> on the store alone, for the case that no query
  fails: one loop body, and the whole ingestion.
\<close>

definition depStep :: "string \<Rightarrow> dependency \<Rightarrow> store \<Rightarrow> store" where
  "depStep pn dep g = snd (relationshipQuery pn dep (snd (packageQuery dep g)))"

definition buildWrites :: "manifest \<Rightarrow> store \<Rightarrow> store" where
  "buildWrites parsedData g =
    snd (fileQuery parsedData
      (fold (depStep (projectName parsedData)) (m_dependencies parsedData)
        (snd (projectQuery parsedData g))))"

definition dep_key :: "string \<Rightarrow> dependency \<Rightarrow> node_ref \<times> node_ref" where
  "dep_key pn dep = (ProjectNode pn, PackageNode (d_name dep))"

text \<open>The numbers of nodes and relationships of each kind.\<close>

record graph_counts =
  projectNodes :: nat
  packageNodes :: nat
  fileNodes :: nat
  dependsOnEdges :: nat
  hasFileEdges :: nat

definition countGraph :: "store \<Rightarrow> graph_counts" where
  "countGraph g = \<lparr>projectNodes = length (projects g), packageNodes = length (packages g),
     fileNodes = length (files g), dependsOnEdges = length (depends_on g),
     hasFileEdges = length (has_file g)\<rparr>"

text \<open>
  At most one \<open>DEPENDS_ON\<close> relationship between two nodes: what \<open>MERGE\<close> maintains.
\<close>

definition unique_edges :: "store \<Rightarrow> bool" where
  "unique_edges g = distinct (map fst (depends_on g))"

text \<open>
  Every relationship tagged \<open>derived\<close> leads from the package named like a project to
  a package that this project depends on directly.
\<close>

definition derived_from_project :: "store \<Rightarrow> bool" where
  "derived_from_project g =
    (\<forall>((s, t), r) \<in> set (depends_on g). source r = Some ''derived'' \<longrightarrow>
       (\<exists>p d. s = PackageNode p \<and> t = PackageNode d \<and>
          p \<in> keys (projects g) \<and> p \<in> keys (packages g) \<and>
          (ProjectNode p, PackageNode d) \<in> keys (depends_on g)))"

text \<open>
  Every relationship tagged \<open>derived\<close> has the names of two projects at its ends.
\<close>

definition derived_between_projects :: "store \<Rightarrow> bool" where
  "derived_between_projects g =
    (\<forall>((s, t), r) \<in> set (depends_on g). source r = Some ''derived'' \<longrightarrow>
       (\<exists>p d. s = PackageNode p \<and> t = PackageNode d \<and>
          p \<in> keys (projects g) \<and> d \<in> keys (projects g)))"

text \<open>
  The clients the tool can be left with: an empty store (after \<open>clearDatabase\<close>), then
  ingestions and link runs that succeed; between two runs the store may become
  unreachable or reachable again and the plugin may be installed or removed.
\<close>

inductive reachable :: "client \<Rightarrow> bool" where
  cleared: "graph c = empty_store \<Longrightarrow> reachable c"
| built: "reachable c \<Longrightarrow> buildProjectGraph c parsedData = Inr (ok, c') \<Longrightarrow> reachable c'"
| linked: "reachable c \<Longrightarrow> linkPackageDependencies c = Inr (n, c') \<Longrightarrow> reachable c'"
| reconnected: "reachable c \<Longrightarrow> graph c' = graph c \<Longrightarrow> reachable c'"

text \<open>
  The version constraints under which projects depend on a package, and the entries of
  the projects that depend on it.
\<close>

definition constraints_on :: "store \<Rightarrow> string \<Rightarrow> string set" where
  "constraints_on g name =
    {versionConstraint r | p r. ((ProjectNode p, PackageNode name), r) \<in> set (depends_on g)}"

definition dependents_of :: "store \<Rightarrow> string \<Rightarrow> dep_entry set" where
  "dependents_of g name =
    {\<lparr>project = p, version = versionConstraint r, type = r_type r\<rparr> | p r.
       ((ProjectNode p, PackageNode name), r) \<in> set (depends_on g)}"

text \<open>Two packages that depend on each other.\<close>

definition mutual :: "store \<Rightarrow> string \<Rightarrow> string \<Rightarrow> bool" where
  "mutual g a b \<longleftrightarrow>
     (PackageNode a, PackageNode b) \<in> keys (depends_on g) \<and>
     (PackageNode b, PackageNode a) \<in> keys (depends_on g)"

section \<open>Sample projects\<close>

text \<open>
  Records as \<open>JavaScriptParser\<close> produces them for a \<open>package.json\<close> with caret
  ranges, and the nodes and relationships the builder stores for them.
\<close>

definition caret_dep :: "string \<Rightarrow> string \<Rightarrow> dependency" where
  "caret_dep name v =
    \<lparr>d_name = name, d_version = v, d_versionRange = ''^'' @ v, d_operator = ''^'',
     d_language = '''', d_type = ''production'', d_lineNumber = 0\<rparr>"

definition package_json :: "string \<Rightarrow> dependency list \<Rightarrow> manifest" where
  "package_json name deps =
    \<lparr>projectName = name, projectPath = ''/repo/'' @ name, m_language = ''javascript'',
     m_version = ''1.0.0'', m_description = '''',
     dependencyFile = ''/repo/'' @ name @ ''/package.json'',
     m_dependencies = deps, totalDependencies = length deps\<rparr>"

definition js_project :: "string \<Rightarrow> nat \<Rightarrow> string \<times> project_props" where
  "js_project name n = (name, \<lparr>proj_path = ''/repo/'' @ name, proj_language = ''javascript'',
     proj_version = ''1.0.0'', proj_description = '''', proj_totalDependencies = n\<rparr>)"

definition js_package :: "string \<Rightarrow> string \<Rightarrow> string \<times> package_props" where
  "js_package name v =
    (name, \<lparr>pkg_version = v, pkg_operator = ''^'', pkg_language = ''javascript''\<rparr>)"

definition js_file :: "string \<Rightarrow> string \<times> file_props" where
  "js_file name = (''/repo/'' @ name @ ''/package.json'', \<lparr>file_name = ''package.json'',
     file_type = ''dependency_manifest'', file_language = ''javascript''\<rparr>)"

definition direct_to :: "string \<Rightarrow> string \<Rightarrow> string \<Rightarrow> edge" where
  "direct_to p d v = ((ProjectNode p, PackageNode d),
     \<lparr>versionConstraint = v, r_type = ''production'', direct = Some True,
      lineNumber = Some 0, source = None\<rparr>)"

definition derived_to :: "string \<Rightarrow> string \<Rightarrow> string \<Rightarrow> edge" where
  "derived_to p d v = ((PackageNode p, PackageNode d),
     \<lparr>versionConstraint = v, r_type = ''production'', direct = None,
      lineNumber = None, source = Some ''derived''\<rparr>)"

definition installed_client :: client where
  "installed_client = \<lparr>graph = empty_store, apocInstalled = True, outage = None\<rparr>"

text \<open>
  Two services: \<open>authService\<close> depends on \<open>express ^4.18.0\<close>; \<open>userService\<close>
  depends on \<open>authService ^1.0.0\<close> and on \<open>express ^4.17.0\<close>. The store after both
  are loaded.
\<close>

definition auth_manifest :: manifest where
  "auth_manifest = package_json ''authService'' [caret_dep ''express'' ''4.18.0'']"

definition user_manifest :: manifest where
  "user_manifest = package_json ''userService''
     [caret_dep ''authService'' ''1.0.0'', caret_dep ''express'' ''4.17.0'']"

definition services_store :: store where
  "services_store =
    \<lparr>projects = [js_project ''authService'' 1, js_project ''userService'' 2],
     packages = [js_package ''express'' ''4.17.0'', js_package ''authService'' ''1.0.0''],
     files = [js_file ''authService'', js_file ''userService''],
     depends_on =
       [direct_to ''authService'' ''express'' ''^4.18.0'',
        direct_to ''userService'' ''authService'' ''^1.0.0'',
        direct_to ''userService'' ''express'' ''^4.17.0'',
        derived_to ''authService'' ''express'' ''^4.18.0''],
     has_file = [(''userService'', ''/repo/userService/package.json''),
                 (''authService'', ''/repo/authService/package.json'')]\<rparr>"

definition services_client :: client where
  "services_client = \<lparr>graph = services_store, apocInstalled = True, outage = None\<rparr>"

text \<open>
  Two projects that depend on each other, \<open>D\<close> on \<open>E ^1.0.0\<close> and \<open>E\<close> on
  \<open>D ^1.0.0\<close>, and the store after both are loaded.
\<close>

definition mutual_store :: store where
  "mutual_store =
    \<lparr>projects = [js_project ''D'' 1, js_project ''E'' 1],
     packages = [js_package ''E'' ''1.0.0'', js_package ''D'' ''1.0.0''],
     files = [js_file ''D'', js_file ''E''],
     depends_on =
       [direct_to ''D'' ''E'' ''^1.0.0'', direct_to ''E'' ''D'' ''^1.0.0'',
        derived_to ''D'' ''E'' ''^1.0.0'', derived_to ''E'' ''D'' ''^1.0.0''],
     has_file = [(''E'', ''/repo/E/package.json''), (''D'', ''/repo/D/package.json'')]\<rparr>"

definition mutual_client :: client where
  "mutual_client = \<lparr>graph = mutual_store, apocInstalled = True, outage = None\<rparr>"

section \<open>Properties of the version heuristics\<close>

lemmas number_eval = parseInt_def decimal_def digitValue_def toNumber_def exponent.simps

lemmas version_eval = isCompatible_def getMajor_def startsWith_def isDigit_def number_eval

lemma getMajor_no_digit:
  assumes "\<forall>c \<in> set v. \<not> isDigit c"
  shows "getMajor v = None"
proof -
  have none_left: "dropWhile (\<lambda>c. \<not> isDigit c) v = []"
    using assms by simp
  show ?thesis
    unfolding getMajor_def none_left by simp
qed

text \<open>
  \<open>toNumber\<close> rounds to the nearest double: a finite result is a significand of at
  most 53 bits times \<open>2 ^ exponent n\<close>, at most half of \<open>2 ^ exponent n\<close> away
  from \<open>n\<close>, and with an even significand when it is exactly half away.
\<close>

lemma exponent_fits: "n div 2 ^ exponent n < 2 ^ 53"
proof (induction n rule: exponent.induct)
  case (1 n)
  show ?case
  proof (cases "n < 2 ^ 53")
    case True
    then show ?thesis
      by (simp add: exponent.simps [of n])
  next
    case False
    then have "n div 2 ^ exponent n = (n div 2) div 2 ^ exponent (n div 2)"
      by (simp add: exponent.simps [of n] div_mult2_eq)
    with 1 [OF False] show ?thesis
      by simp
  qed
qed

lemma exponent_positive: "\<not> n < 2 ^ 53 \<Longrightarrow> 0 < exponent n"
  by (simp add: exponent.simps [of n])

lemma exponent_normal: "\<not> n < 2 ^ 53 \<Longrightarrow> 2 ^ 52 \<le> n div 2 ^ exponent n"
proof (induction n rule: exponent.induct)
  case (1 n)
  have step: "n div 2 ^ exponent n = (n div 2) div 2 ^ exponent (n div 2)"
    using "1.prems" by (simp add: exponent.simps [of n] div_mult2_eq)
  show ?case
  proof (cases "n div 2 < 2 ^ 53")
    case True
    then have "exponent (n div 2) = 0"
      by (simp add: exponent.simps [of "n div 2"])
    with step "1.prems" show ?thesis
      by simp
  next
    case False
    from "1.IH" [OF "1.prems" False] step show ?thesis
      by simp
  qed
qed

lemma toNumber_nearest:
  assumes "toNumber n = Finite v"
  shows "2 ^ exponent n dvd v \<and> v div 2 ^ exponent n \<le> 2 ^ 53 \<and>
         2 * (if v \<le> n then n - v else v - n) \<le> 2 ^ exponent n \<and>
         (2 * (if v \<le> n then n - v else v - n) = 2 ^ exponent n \<longrightarrow>
            even (v div 2 ^ exponent n))"
proof (cases "n < 2 ^ 53")
  case True
  then have "exponent n = 0"
    by (simp add: exponent.simps [of n])
  moreover from assms True have "v = n"
    by (simp add: toNumber_def)
  ultimately show ?thesis
    using True by simp
next
  case False
  define e where "e = exponent n"
  define q where "q = n div 2 ^ e"
  define r where "r = n mod 2 ^ e"
  have e: "0 < e"
    unfolding e_def using False by (rule exponent_positive)
  then have two: "(2::nat) ^ e = 2 * 2 ^ (e - 1)"
    by (cases e) simp_all
  have n: "n = q * 2 ^ e + r"
    unfolding q_def r_def by (rule div_mult_mod_eq [symmetric])
  have r: "r < 2 ^ e"
    by (simp add: r_def)
  have q: "q < 2 ^ 53"
    unfolding q_def e_def by (rule exponent_fits)
  have "2 ^ e dvd v \<and> v div 2 ^ e \<le> 2 ^ 53 \<and>
      2 * (if v \<le> n then n - v else v - n) \<le> 2 ^ e \<and>
      (2 * (if v \<le> n then n - v else v - n) = 2 ^ e \<longrightarrow> even (v div 2 ^ e))"
  proof (cases "r < 2 ^ (e - 1) \<or> (r = 2 ^ (e - 1) \<and> even q)")
    case True
    with assms False have v: "v = q * 2 ^ e"
      by (simp add: toNumber_def Let_def e_def [symmetric] q_def [symmetric] r_def [symmetric]
          split: if_splits)
    have "2 * r \<le> 2 ^ e" and "2 * r = 2 ^ e \<longrightarrow> even q"
      using True two by auto
    moreover have "v \<le> n" and "n - v = r"
      using v n by simp_all
    moreover have "v div 2 ^ e = q"
      using v by simp
    ultimately show ?thesis
      using v q by simp
  next
    case up: False
    with assms False have v: "v = (q + 1) * 2 ^ e"
      by (simp add: toNumber_def Let_def e_def [symmetric] q_def [symmetric] r_def [symmetric]
          split: if_splits)
    have "2 ^ (e - 1) \<le> r"
      using up by auto
    then have "2 * (v - n) \<le> 2 ^ e"
      using v n r two by simp
    moreover have "2 * (v - n) = 2 ^ e \<longrightarrow> even (q + 1)"
      using up v n r two by auto
    moreover have "\<not> v \<le> n"
      using v n r by simp
    moreover have "v div 2 ^ e = q + 1"
      using v by simp
    ultimately show ?thesis
      using v q by simp
  qed
  then show ?thesis
    unfolding e_def .
qed

text \<open>
  The numbers that \<open>parseInt\<close> extracts: the integer itself below \<open>2^53\<close>, the
  nearest double above, \<open>Infinity\<close> for a run of 310 digits. Two caret constraints
  whose majors are different integers and the same double are compatible.
\<close>

lemma toNumber_exact: "n < 2 ^ 53 \<Longrightarrow> toNumber n = Finite n"
  by (simp add: toNumber_def)

lemma toNumber_exact_inj:
  "m < 2 ^ 53 \<Longrightarrow> n < 2 ^ 53 \<Longrightarrow> toNumber m = toNumber n \<longleftrightarrow> m = n"
  by (simp add: toNumber_exact)

lemma parseInt_rounds:
  "parseInt ''9007199254740993'' = Finite 9007199254740992"
  "parseInt ''9007199254740995'' = Finite 9007199254740996"
  "parseInt ''99999999999999999999'' = Finite 100000000000000000000"
  by (simp_all add: number_eval)

lemma toNumber_overflow: "toNumber (10 ^ 309) = Infinity"
  by (simp add: toNumber_def exponent.simps)

lemma isCompatible_rounds:
  "getMajor ''^9007199254740993'' = Some (Finite 9007199254740992)"
  "isCompatible ''^9007199254740993'' ''^9007199254740992''"
  "\<not> isCompatible ''^9007199254740994'' ''^9007199254740992''"
  by (simp_all add: version_eval)

text \<open>
  C4. \<open>isCompatible\<close> is true on identical strings; on two caret constraints it is
  true exactly when the majors, the numbers that \<open>getMajor\<close> extracts, are equal
  (\<open>null\<close> equals \<open>null\<close>); on two tilde constraints exactly when the majors and
  the minors are equal; in every other combination it is false. The four examples of
  the specification evaluate as stated.
\<close>

theorem isCompatible_cases:
  "(a = b \<longrightarrow> isCompatible a b) \<and>
   (startsWith a ''^'' \<and> startsWith b ''^'' \<longrightarrow>
      (isCompatible a b \<longleftrightarrow> getMajor a = getMajor b)) \<and>
   (startsWith a ''~'' \<and> startsWith b ''~'' \<longrightarrow>
      (isCompatible a b \<longleftrightarrow> getMajor a = getMajor b \<and> getMinor a = getMinor b)) \<and>
   (a \<noteq> b \<and> \<not> (startsWith a ''^'' \<and> startsWith b ''^'') \<and>
      \<not> (startsWith a ''~'' \<and> startsWith b ''~'') \<longrightarrow> \<not> isCompatible a b) \<and>
   isCompatible ''^4.18.0'' ''^4.17.0'' \<and>
   \<not> isCompatible ''^4.18.0'' ''^5.0.0'' \<and>
   \<not> isCompatible ''~1.2.0'' ''~1.3.0'' \<and>
   isCompatible ''1.0.0'' ''1.0.0''"
proof -
  have same: "a = b \<longrightarrow> isCompatible a b"
    by (simp add: isCompatible_def)
  have caret: "startsWith a ''^'' \<and> startsWith b ''^'' \<longrightarrow>
      (isCompatible a b \<longleftrightarrow> getMajor a = getMajor b)"
    by (auto simp: isCompatible_def)
  have tilde: "startsWith a ''~'' \<and> startsWith b ''~'' \<longrightarrow>
      (isCompatible a b \<longleftrightarrow> getMajor a = getMajor b \<and> getMinor a = getMinor b)"
    by (auto simp: isCompatible_def startsWith_def)
  have other: "a \<noteq> b \<and> \<not> (startsWith a ''^'' \<and> startsWith b ''^'') \<and>
      \<not> (startsWith a ''~'' \<and> startsWith b ''~'') \<longrightarrow> \<not> isCompatible a b"
    by (auto simp: isCompatible_def)
  have e1: "isCompatible ''^4.18.0'' ''^4.17.0''"
    by (simp add: version_eval)
  have e2: "\<not> isCompatible ''^4.18.0'' ''^5.0.0''"
    by (simp add: version_eval)
  have e3: "\<not> isCompatible ''~1.2.0'' ''~1.3.0''"
    by (simp add: version_eval)
  have e4: "isCompatible ''1.0.0'' ''1.0.0''"
    by (simp add: isCompatible_def)
  from same caret tilde other e1 e2 e3 e4 show ?thesis
    by blast
qed

theorem isCompatible_cases_witness:
  "startsWith ''^4.18.0'' ''^'' \<and> startsWith ''^4.17.0'' ''^'' \<and>
   getMajor ''^4.18.0'' = getMajor ''^4.17.0'' \<and> isCompatible ''^4.18.0'' ''^4.17.0'' \<and>
   startsWith ''~1.2.0'' ''~'' \<and> startsWith ''~1.2.5'' ''~'' \<and>
   getMajor ''~1.2.0'' = getMajor ''~1.2.5'' \<and> getMinor ''~1.2.0'' = getMinor ''~1.2.5'' \<and>
   isCompatible ''~1.2.0'' ''~1.2.5'' \<and>
   ''>=1.2.0'' \<noteq> ''^1.2.0'' \<and> \<not> startsWith ''>=1.2.0'' ''^'' \<and>
   \<not> startsWith ''>=1.2.0'' ''~'' \<and> \<not> isCompatible ''>=1.2.0'' ''^1.2.0''"
proof -
  have c1: "startsWith ''^4.18.0'' ''^'' \<and> startsWith ''^4.17.0'' ''^''"
    by (simp add: startsWith_def)
  have m1: "getMajor ''^4.18.0'' = getMajor ''^4.17.0''"
    by (simp add: getMajor_def isDigit_def number_eval)
  have c2: "startsWith ''~1.2.0'' ''~'' \<and> startsWith ''~1.2.5'' ''~''"
    by (simp add: startsWith_def)
  have m2: "getMajor ''~1.2.0'' = getMajor ''~1.2.5''"
    by (simp add: getMajor_def isDigit_def number_eval)
  have n2: "getMinor ''~1.2.0'' = getMinor ''~1.2.5''"
    by (simp add: isDigit_def number_eval)
  have c3: "''>=1.2.0'' \<noteq> ''^1.2.0'' \<and> \<not> startsWith ''>=1.2.0'' ''^'' \<and>
      \<not> startsWith ''>=1.2.0'' ''~''"
    by (simp add: startsWith_def)
  from c1 m1 isCompatible_cases [of "''^4.18.0''" "''^4.17.0''"]
  have r1: "isCompatible ''^4.18.0'' ''^4.17.0''"
    by blast
  from c2 m2 n2 isCompatible_cases [of "''~1.2.0''" "''~1.2.5''"]
  have r2: "isCompatible ''~1.2.0'' ''~1.2.5''"
    by blast
  from c3 isCompatible_cases [of "''>=1.2.0''" "''^1.2.0''"]
  have r3: "\<not> isCompatible ''>=1.2.0'' ''^1.2.0''"
    by blast
  from c1 m1 r1 c2 m2 n2 r2 c3 r3 show ?thesis
    by blast
qed

text \<open>
  C9. \<open>isCompatible\<close> is symmetric in its two arguments.
\<close>

theorem isCompatible_symmetric: "isCompatible a b = isCompatible b a"
  by (auto simp: isCompatible_def Let_def)

theorem isCompatible_symmetric_witness:
  "isCompatible ''^4.18.0'' ''~4.17.0'' = isCompatible ''~4.17.0'' ''^4.18.0''"
  using isCompatible_symmetric [of "''^4.18.0''" "''~4.17.0''"] by simp

text \<open>
  C10. Two different caret constraints without any digit are reported compatible: both
  majors are \<open>null\<close>, and \<open>null === null\<close> holds.
\<close>

theorem isCompatible_caret_no_digits:
  assumes "a \<noteq> b"
    and "startsWith a ''^''" and "startsWith b ''^''"
    and "\<forall>c \<in> set a. \<not> isDigit c" and "\<forall>c \<in> set b. \<not> isDigit c"
  shows "isCompatible a b \<and> getMajor a = None \<and> getMajor b = None"
proof -
  have ma: "getMajor a = None"
    using assms(4) by (rule getMajor_no_digit)
  have mb: "getMajor b = None"
    using assms(5) by (rule getMajor_no_digit)
  from assms(1,2,3) ma mb show ?thesis
    by (simp add: isCompatible_def)
qed

theorem isCompatible_caret_no_digits_witness:
  "''^latest'' \<noteq> ''^next'' \<and> isCompatible ''^latest'' ''^next'' \<and>
   getMajor ''^latest'' = None \<and> getMajor ''^next'' = None"
proof -
  have ne: "''^latest'' \<noteq> ''^next''"
    by simp
  have sa: "startsWith ''^latest'' ''^''" and sb: "startsWith ''^next'' ''^''"
    by (simp_all add: startsWith_def)
  have da: "\<forall>c \<in> set ''^latest''. \<not> isDigit c"
    by (simp add: isDigit_def)
  have db: "\<forall>c \<in> set ''^next''. \<not> isDigit c"
    by (simp add: isDigit_def)
  from ne isCompatible_caret_no_digits [OF ne sa sb da db] show ?thesis
    by simp
qed

section \<open>Upserts and the gateway\<close>

lemma keys_merge_set: "fst ` set (merge_set k fresh upd xs) = insert k (fst ` set xs)"
  by (force simp: merge_set_def split: if_splits)

lemma map_fst_merge_set:
  "map fst (merge_set k fresh upd xs) =
     (if k \<in> fst ` set xs then map fst xs else map fst xs @ [k])"
  by (auto simp: merge_set_def)

lemma length_merge_set:
  "length (merge_set k fresh upd xs) = (if k \<in> fst ` set xs then length xs else Suc (length xs))"
  by (simp add: merge_set_def)

lemma keys_merge_on_create: "fst ` set (merge_on_create k v xs) = insert k (fst ` set xs)"
  by (auto simp: merge_on_create_def)

lemma map_fst_merge_on_create:
  "map fst (merge_on_create k v xs) =
     (if k \<in> fst ` set xs then map fst xs else map fst xs @ [k])"
  by (simp add: merge_on_create_def)

lemma set_merge_on_create:
  "set (merge_on_create k v xs) = (if k \<in> fst ` set xs then set xs else insert (k, v) (set xs))"
  by (simp add: merge_on_create_def)

lemma in_merge_set:
  assumes "e \<in> set (merge_set k fresh upd xs)"
  shows "e \<in> set xs \<and> fst e \<noteq> k \<or>
         (\<exists>v. (k, v) \<in> set xs \<and> e = (k, upd v)) \<or> e = (k, upd fresh)"
  using assms by (auto simp: merge_set_def split: if_splits)

lemma executeQuery_ok:
  "outage c = None \<Longrightarrow>
   executeQuery c q = Inr (fst (q (graph c)), c\<lparr>graph := snd (q (graph c))\<rparr>)"
  by (simp add: executeQuery_def split: prod.splits)

lemma executeQuery_fail: "outage c = Some e \<Longrightarrow> executeQuery c q = Inl e"
  by (simp add: executeQuery_def)

section \<open>One ingestion\<close>

lemma dependencyLoop_ok:
  "outage c = None \<Longrightarrow>
   dependencyLoop c pn deps n = Inr (n + length deps, c\<lparr>graph := fold (depStep pn) deps (graph c)\<rparr>)"
proof (induction deps arbitrary: c n)
  case Nil
  then show ?case by simp
next
  case (Cons dep deps)
  let ?c1 = "c\<lparr>graph := snd (packageQuery dep (graph c))\<rparr>"
  let ?c2 = "c\<lparr>graph := depStep pn dep (graph c)\<rparr>"
  have o1: "outage ?c1 = None" and o2: "outage ?c2 = None"
    using Cons.prems by simp_all
  have s1: "executeQuery c (packageQuery dep) = Inr (fst (packageQuery dep (graph c)), ?c1)"
    using Cons.prems by (rule executeQuery_ok)
  have s2: "executeQuery ?c1 (relationshipQuery pn dep) =
      Inr (fst (relationshipQuery pn dep (graph ?c1)), ?c2)"
    using executeQuery_ok [OF o1, of "relationshipQuery pn dep"] by (simp add: depStep_def)
  show ?case
    using Cons.IH [OF o2, of "n + 1"] by (simp add: s1 s2)
qed

lemma buildProjectGraph_ok:
  assumes "outage c = None"
  shows "buildProjectGraph c parsedData = Inr (True, c\<lparr>graph := buildWrites parsedData (graph c)\<rparr>)"
proof -
  let ?c1 = "c\<lparr>graph := snd (projectQuery parsedData (graph c))\<rparr>"
  let ?c2 = "?c1\<lparr>graph := fold (depStep (projectName parsedData)) (m_dependencies parsedData) (graph ?c1)\<rparr>"
  have o1: "outage ?c1 = None" and o2: "outage ?c2 = None"
    using assms by simp_all
  have s1: "createProjectNode c parsedData = Inr (fst (projectQuery parsedData (graph c)), ?c1)"
    unfolding createProjectNode_def using assms by (rule executeQuery_ok)
  have s2: "createDependencyNodes ?c1 (projectName parsedData) (m_dependencies parsedData) =
      Inr (0 + length (m_dependencies parsedData), ?c2)"
    unfolding createDependencyNodes_def using o1 by (rule dependencyLoop_ok)
  have s3: "createFileNode ?c2 parsedData =
      Inr (fst (fileQuery parsedData (graph ?c2)), ?c2\<lparr>graph := snd (fileQuery parsedData (graph ?c2))\<rparr>)"
    unfolding createFileNode_def using o2 by (rule executeQuery_ok)
  from s1 s2 s3 show ?thesis
    by (simp add: buildProjectGraph_def buildWrites_def)
qed

lemma buildProjectGraph_fail:
  "outage c = Some e \<Longrightarrow> buildProjectGraph c parsedData = Inl e"
  by (simp add: buildProjectGraph_def createProjectNode_def executeQuery_fail)

lemma buildProjectGraph_cases:
  assumes "buildProjectGraph c parsedData = Inr (ok, c')"
  shows "outage c = None \<and> ok \<and> c' = c\<lparr>graph := buildWrites parsedData (graph c)\<rparr>"
proof (cases "outage c")
  case None
  from buildProjectGraph_ok [OF None, of parsedData] assms None show ?thesis by simp
next
  case (Some e)
  from buildProjectGraph_fail [OF Some, of parsedData] assms show ?thesis by simp
qed

lemma projectQuery_fields:
  "keys (projects (snd (projectQuery m g))) = insert (projectName m) (keys (projects g))"
  "length (projects (snd (projectQuery m g))) =
     (if projectName m \<in> keys (projects g) then length (projects g) else Suc (length (projects g)))"
  "packages (snd (projectQuery m g)) = packages g"
  "files (snd (projectQuery m g)) = files g"
  "depends_on (snd (projectQuery m g)) = depends_on g"
  "has_file (snd (projectQuery m g)) = has_file g"
  by (simp_all add: projectQuery_def Let_def keys_def keys_merge_set length_merge_set)

lemma depStep_fields:
  "projects (depStep pn dep g) = projects g"
  "files (depStep pn dep g) = files g"
  "has_file (depStep pn dep g) = has_file g"
  "keys (packages (depStep pn dep g)) = insert (d_name dep) (keys (packages g))"
  "length (packages (depStep pn dep g)) =
     (if d_name dep \<in> keys (packages g) then length (packages g) else Suc (length (packages g)))"
  by (simp_all add: depStep_def relationshipQuery_def packageQuery_def Let_def keys_def
      keys_merge_set length_merge_set)

lemma depStep_edges:
  "depends_on (depStep pn dep g) =
     (if pn \<in> keys (projects g)
      then merge_set (dep_key pn dep) new_edge
             (\<lambda>r. r\<lparr>versionConstraint := or_else (d_versionRange dep) (d_version dep),
                     r_type := or_else (d_type dep) ''production'',
                     direct := Some True,
                     lineNumber := Some (d_lineNumber dep)\<rparr>)
             (depends_on g)
      else depends_on g)"
  by (simp add: depStep_def relationshipQuery_def packageQuery_def Let_def keys_def
      keys_merge_set dep_key_def)

lemma depStep_edge_keys:
  "keys (depends_on (depStep pn dep g)) =
     (if pn \<in> keys (projects g) then insert (dep_key pn dep) (keys (depends_on g))
      else keys (depends_on g))"
  by (simp add: depStep_edges) (simp add: keys_def keys_merge_set)

lemma depStep_edge_length:
  "dep_key pn dep \<in> keys (depends_on g) \<Longrightarrow>
   length (depends_on (depStep pn dep g)) = length (depends_on g)"
  by (simp add: depStep_edges) (simp add: keys_def length_merge_set)

lemma fold_depStep_fields:
  "projects (fold (depStep pn) deps g) = projects g"
  "files (fold (depStep pn) deps g) = files g"
  "has_file (fold (depStep pn) deps g) = has_file g"
  "keys (packages (fold (depStep pn) deps g)) = keys (packages g) \<union> d_name ` set deps"
  by (induction deps arbitrary: g) (auto simp: depStep_fields)

lemma fold_depStep_edge_keys:
  "pn \<in> keys (projects g) \<Longrightarrow>
   keys (depends_on (fold (depStep pn) deps g)) = keys (depends_on g) \<union> dep_key pn ` set deps"
  by (induction deps arbitrary: g) (auto simp: depStep_fields depStep_edge_keys)

lemma fold_depStep_package_length:
  "d_name ` set deps \<subseteq> keys (packages g) \<Longrightarrow>
   length (packages (fold (depStep pn) deps g)) = length (packages g)"
proof (induction deps arbitrary: g)
  case Nil
  then show ?case by simp
next
  case (Cons dep deps)
  have here: "d_name dep \<in> keys (packages g)"
    using Cons.prems by simp
  have rest: "d_name ` set deps \<subseteq> keys (packages (depStep pn dep g))"
    using Cons.prems by (auto simp: depStep_fields)
  show ?case
    using Cons.IH [OF rest] here by (simp add: depStep_fields)
qed

lemma fold_depStep_edge_length:
  "dep_key pn ` set deps \<subseteq> keys (depends_on g) \<Longrightarrow>
   length (depends_on (fold (depStep pn) deps g)) = length (depends_on g)"
proof (induction deps arbitrary: g)
  case Nil
  then show ?case by simp
next
  case (Cons dep deps)
  have here: "dep_key pn dep \<in> keys (depends_on g)"
    using Cons.prems by simp
  have rest: "dep_key pn ` set deps \<subseteq> keys (depends_on (depStep pn dep g))"
    using Cons.prems by (auto simp: depStep_edge_keys)
  show ?case
    using Cons.IH [OF rest] depStep_edge_length [OF here] by simp
qed

lemma fileQuery_fields:
  "projects (snd (fileQuery m g)) = projects g"
  "packages (snd (fileQuery m g)) = packages g"
  "depends_on (snd (fileQuery m g)) = depends_on g"
  "projectName m \<in> keys (projects g) \<Longrightarrow>
     keys (files (snd (fileQuery m g))) = insert (dependencyFile m) (keys (files g))"
  "projectName m \<in> keys (projects g) \<Longrightarrow>
     set (has_file (snd (fileQuery m g))) = insert (projectName m, dependencyFile m) (set (has_file g))"
  by (simp_all add: fileQuery_def Let_def keys_def keys_merge_set)

lemma fileQuery_lengths:
  assumes "dependencyFile m \<in> keys (files g)"
    and "(projectName m, dependencyFile m) \<in> set (has_file g)"
  shows "length (files (snd (fileQuery m g))) = length (files g)"
    and "length (has_file (snd (fileQuery m g))) = length (has_file g)"
  using assms by (simp_all add: fileQuery_def Let_def keys_def length_merge_set)

lemma buildWrites_after:
  "projectName m \<in> keys (projects (buildWrites m g))"
  "d_name ` set (m_dependencies m) \<subseteq> keys (packages (buildWrites m g))"
  "dep_key (projectName m) ` set (m_dependencies m) \<subseteq> keys (depends_on (buildWrites m g))"
  "dependencyFile m \<in> keys (files (buildWrites m g))"
  "(projectName m, dependencyFile m) \<in> set (has_file (buildWrites m g))"
  by (simp_all add: buildWrites_def fileQuery_fields fold_depStep_fields projectQuery_fields
      fold_depStep_edge_keys)

lemma buildWrites_same_counts:
  assumes "projectName m \<in> keys (projects g)"
    and "d_name ` set (m_dependencies m) \<subseteq> keys (packages g)"
    and "dep_key (projectName m) ` set (m_dependencies m) \<subseteq> keys (depends_on g)"
    and "dependencyFile m \<in> keys (files g)"
    and "(projectName m, dependencyFile m) \<in> set (has_file g)"
  shows "countGraph (buildWrites m g) = countGraph g"
proof -
  let ?g1 = "snd (projectQuery m g)"
  let ?g2 = "fold (depStep (projectName m)) (m_dependencies m) ?g1"
  have p: "length (projects (buildWrites m g)) = length (projects g)"
    using assms(1)
    by (simp add: buildWrites_def fileQuery_fields fold_depStep_fields projectQuery_fields)
  have k: "length (packages (buildWrites m g)) = length (packages g)"
    using assms(2) fold_depStep_package_length [of "m_dependencies m" ?g1 "projectName m"]
    by (simp add: buildWrites_def fileQuery_fields projectQuery_fields)
  have e: "length (depends_on (buildWrites m g)) = length (depends_on g)"
    using assms(3) fold_depStep_edge_length [of "projectName m" "m_dependencies m" ?g1]
    by (simp add: buildWrites_def fileQuery_fields projectQuery_fields)
  have f2: "dependencyFile m \<in> keys (files ?g2)"
    and h2: "(projectName m, dependencyFile m) \<in> set (has_file ?g2)"
    using assms(4,5) by (simp_all add: fold_depStep_fields projectQuery_fields)
  have f: "length (files (buildWrites m g)) = length (files g)"
    using fileQuery_lengths(1) [OF f2 h2]
    by (simp add: buildWrites_def fold_depStep_fields projectQuery_fields)
  have h: "length (has_file (buildWrites m g)) = length (has_file g)"
    using fileQuery_lengths(2) [OF f2 h2]
    by (simp add: buildWrites_def fold_depStep_fields projectQuery_fields)
  from p k e f h show ?thesis
    by (simp add: countGraph_def)
qed

lemma buildWrites_idempotent_counts:
  "countGraph (buildWrites m (buildWrites m g)) = countGraph (buildWrites m g)"
  by (rule buildWrites_same_counts) (rule buildWrites_after)+

section \<open>Rows of the graph patterns and the link step\<close>

lemma in_map_filter:
  "y \<in> set (List.map_filter f xs) \<longleftrightarrow> (\<exists>x \<in> set xs. f x = Some y)"
  by (induction xs) (auto split: option.splits)

lemma project_edge_Some:
  "project_edge e = Some (p, d, r) \<longleftrightarrow> e = ((ProjectNode p, PackageNode d), r)"
  by (cases e rule: project_edge.cases) auto

lemma package_edge_Some:
  "package_edge e = Some (a, b, r) \<longleftrightarrow> e = ((PackageNode a, PackageNode b), r)"
  by (cases e rule: package_edge.cases) auto

lemma in_project_edges:
  "(p, d, r) \<in> set (project_edges g) \<longleftrightarrow> ((ProjectNode p, PackageNode d), r) \<in> set (depends_on g)"
  by (auto simp: project_edges_def in_map_filter project_edge_Some)

lemma in_package_edges:
  "(a, b, r) \<in> set (package_edges g) \<longleftrightarrow> ((PackageNode a, PackageNode b), r) \<in> set (depends_on g)"
  by (auto simp: package_edges_def in_map_filter package_edge_Some)

lemma in_link_rows:
  "(p, d, r) \<in> set (link_rows g) \<longleftrightarrow>
     p \<in> keys (projects g) \<and> p \<in> keys (packages g) \<and>
     ((ProjectNode p, PackageNode d), r) \<in> set (depends_on g)"
  by (force simp: link_rows_def keys_def in_project_edges)

lemma linkQuery_fields:
  "projects (snd (linkQuery g)) = projects g"
  "packages (snd (linkQuery g)) = packages g"
  "files (snd (linkQuery g)) = files g"
  "has_file (snd (linkQuery g)) = has_file g"
  "depends_on (snd (linkQuery g)) = fold link_step (link_rows g) (depends_on g)"
  by (simp_all add: linkQuery_def Let_def)

lemma link_step_old: "e \<in> set es \<Longrightarrow> e \<in> set (link_step row es)"
  by (cases row) (simp add: link_step_def set_merge_on_create)

lemma fold_link_step_old: "e \<in> set es \<Longrightarrow> e \<in> set (fold link_step rows es)"
  by (induction rows arbitrary: es) (simp_all add: link_step_old)

lemma fold_link_step_new:
  assumes "e \<in> set (fold link_step rows es)" and "e \<notin> set es"
  shows "\<exists>p d r. (p, d, r) \<in> set rows \<and> e = ((PackageNode p, PackageNode d), derived_edge r)"
  using assms
proof (induction rows arbitrary: es)
  case Nil
  then show ?case by simp
next
  case (Cons row rows)
  obtain p d r where row: "row = (p, d, r)"
    by (cases row) auto
  show ?case
  proof (cases "e \<in> set (link_step row es)")
    case True
    with Cons.prems(2) have "e = ((PackageNode p, PackageNode d), derived_edge r)"
      by (auto simp: row link_step_def set_merge_on_create split: if_splits)
    then show ?thesis
      by (auto simp: row)
  next
    case False
    from Cons.prems(1) have "e \<in> set (fold link_step rows (link_step row es))"
      by simp
    from Cons.IH [OF this False] show ?thesis
      by auto
  qed
qed

lemma fold_link_step_distinct:
  "distinct (map fst es) \<Longrightarrow> distinct (map fst (fold link_step rows es))"
  by (induction rows arbitrary: es)
     (auto simp: link_step_def map_fst_merge_on_create)

section \<open>Invariants of the stored graph\<close>

lemma derived_from_project_mono:
  assumes old: "derived_from_project g"
    and grow: "keys (projects g) \<subseteq> keys (projects g')" "keys (packages g) \<subseteq> keys (packages g')"
      "keys (depends_on g) \<subseteq> keys (depends_on g')"
    and new: "\<And>s t r. ((s, t), r) \<in> set (depends_on g') \<Longrightarrow> source r = Some ''derived'' \<Longrightarrow>
      ((s, t), r) \<in> set (depends_on g) \<or>
      (\<exists>p d. s = PackageNode p \<and> t = PackageNode d \<and>
          p \<in> keys (projects g') \<and> p \<in> keys (packages g') \<and>
          (ProjectNode p, PackageNode d) \<in> keys (depends_on g'))"
  shows "derived_from_project g'"
  unfolding derived_from_project_def
proof (intro ballI, clarify)
  fix s t r
  assume e: "((s, t), r) \<in> set (depends_on g')" and d: "source r = Some ''derived''"
  from new [OF e d] show "\<exists>p d. s = PackageNode p \<and> t = PackageNode d \<and>
          p \<in> keys (projects g') \<and> p \<in> keys (packages g') \<and>
          (ProjectNode p, PackageNode d) \<in> keys (depends_on g')"
  proof
    assume "((s, t), r) \<in> set (depends_on g)"
    with old d obtain p d' where "s = PackageNode p" "t = PackageNode d'"
      "p \<in> keys (projects g)" "p \<in> keys (packages g)"
      "(ProjectNode p, PackageNode d') \<in> keys (depends_on g)"
      unfolding derived_from_project_def by blast
    with grow show ?thesis
      by blast
  qed
qed

lemma derived_from_project_depStep:
  assumes "derived_from_project g"
  shows "derived_from_project (depStep pn dep g)"
proof (rule derived_from_project_mono [OF assms])
  show "keys (projects g) \<subseteq> keys (projects (depStep pn dep g))"
    by (simp add: depStep_fields)
  show "keys (packages g) \<subseteq> keys (packages (depStep pn dep g))"
    by (auto simp: depStep_fields)
  show "keys (depends_on g) \<subseteq> keys (depends_on (depStep pn dep g))"
    by (auto simp: depStep_edge_keys)
next
  fix s t r
  assume e: "((s, t), r) \<in> set (depends_on (depStep pn dep g))"
    and d: "source r = Some ''derived''"
  have "((s, t), r) \<in> set (depends_on g)"
  proof (cases "pn \<in> keys (projects g)")
    case False
    with e show ?thesis
      by (simp add: depStep_edges)
  next
    case True
    let ?upd = "\<lambda>r. r\<lparr>versionConstraint := or_else (d_versionRange dep) (d_version dep),
                     r_type := or_else (d_type dep) ''production'',
                     direct := Some True,
                     lineNumber := Some (d_lineNumber dep)\<rparr>"
    from e True have "((s, t), r) \<in> set (merge_set (dep_key pn dep) new_edge ?upd (depends_on g))"
      by (simp add: depStep_edges)
    from in_merge_set [OF this]
    consider "((s, t), r) \<in> set (depends_on g)"
      | v where "(dep_key pn dep, v) \<in> set (depends_on g)" "((s, t), r) = (dep_key pn dep, ?upd v)"
      | "((s, t), r) = (dep_key pn dep, ?upd new_edge)"
      by blast
    then show ?thesis
    proof cases
      case 1
      then show ?thesis .
    next
      case 2
      then have "source v = Some ''derived''" and "((ProjectNode pn, PackageNode (d_name dep)), v) \<in> set (depends_on g)"
        using d by (auto simp: dep_key_def)
      with assms have False
        unfolding derived_from_project_def by fastforce
      then show ?thesis ..
    next
      case 3
      with d show ?thesis
        by (simp add: new_edge_def)
    qed
  qed
  then show "((s, t), r) \<in> set (depends_on g) \<or>
      (\<exists>p d. s = PackageNode p \<and> t = PackageNode d \<and>
          p \<in> keys (projects (depStep pn dep g)) \<and> p \<in> keys (packages (depStep pn dep g)) \<and>
          (ProjectNode p, PackageNode d) \<in> keys (depends_on (depStep pn dep g)))"
    by simp
qed

lemma derived_from_project_fold_depStep:
  "derived_from_project g \<Longrightarrow> derived_from_project (fold (depStep pn) deps g)"
  by (induction deps arbitrary: g) (simp_all add: derived_from_project_depStep)

lemma derived_from_project_same_edges:
  assumes "derived_from_project g"
    and "keys (projects g) \<subseteq> keys (projects g')" and "packages g' = packages g"
    and "depends_on g' = depends_on g"
  shows "derived_from_project g'"
  using assms unfolding derived_from_project_def by fastforce

lemma derived_from_project_buildWrites:
  assumes "derived_from_project g"
  shows "derived_from_project (buildWrites m g)"
proof -
  have "derived_from_project (snd (projectQuery m g))"
    using assms by (rule derived_from_project_same_edges) (auto simp: projectQuery_fields)
  then have "derived_from_project (fold (depStep (projectName m)) (m_dependencies m) (snd (projectQuery m g)))"
    by (rule derived_from_project_fold_depStep)
  then show ?thesis
    unfolding buildWrites_def
    by (rule derived_from_project_same_edges) (simp_all add: fileQuery_fields)
qed

lemma derived_from_project_linkQuery:
  assumes "derived_from_project g"
  shows "derived_from_project (snd (linkQuery g))"
proof (rule derived_from_project_mono [OF assms])
  show "keys (projects g) \<subseteq> keys (projects (snd (linkQuery g)))"
    and "keys (packages g) \<subseteq> keys (packages (snd (linkQuery g)))"
    by (simp_all add: linkQuery_fields)
  show grow: "keys (depends_on g) \<subseteq> keys (depends_on (snd (linkQuery g)))"
    using fold_link_step_old [of _ "depends_on g" "link_rows g"]
    by (auto simp: linkQuery_fields keys_def)
  fix s t r
  assume e: "((s, t), r) \<in> set (depends_on (snd (linkQuery g)))"
  show "((s, t), r) \<in> set (depends_on g) \<or>
      (\<exists>p d. s = PackageNode p \<and> t = PackageNode d \<and>
          p \<in> keys (projects (snd (linkQuery g))) \<and> p \<in> keys (packages (snd (linkQuery g))) \<and>
          (ProjectNode p, PackageNode d) \<in> keys (depends_on (snd (linkQuery g))))"
  proof (cases "((s, t), r) \<in> set (depends_on g)")
    case True
    then show ?thesis ..
  next
    case False
    from e have "((s, t), r) \<in> set (fold link_step (link_rows g) (depends_on g))"
      by (simp add: linkQuery_fields)
    from fold_link_step_new [OF this False]
    obtain p d r' where row: "(p, d, r') \<in> set (link_rows g)"
      and st: "s = PackageNode p" "t = PackageNode d"
      by auto
    from row have "p \<in> keys (projects g)" "p \<in> keys (packages g)"
      "(ProjectNode p, PackageNode d) \<in> keys (depends_on g)"
      by (force simp: in_link_rows keys_def)+
    with st grow show ?thesis
      by (auto simp: linkQuery_fields)
  qed
qed

lemma unique_edges_buildWrites:
  assumes "unique_edges g"
  shows "unique_edges (buildWrites m g)"
proof -
  have step: "unique_edges h \<Longrightarrow> unique_edges (depStep pn dep h)" for pn dep h
    by (simp add: unique_edges_def depStep_edges map_fst_merge_set)
  have "unique_edges h \<Longrightarrow> unique_edges (fold (depStep pn) deps h)" for pn deps h
    by (induction deps arbitrary: h) (simp_all add: step)
  moreover have "unique_edges (snd (projectQuery m g))"
    using assms by (simp add: unique_edges_def projectQuery_fields)
  ultimately show ?thesis
    by (simp add: unique_edges_def buildWrites_def fileQuery_fields)
qed

lemma unique_edges_linkQuery:
  "unique_edges g \<Longrightarrow> unique_edges (snd (linkQuery g))"
  by (simp add: unique_edges_def linkQuery_fields fold_link_step_distinct)

lemma linkPackageDependencies_cases:
  assumes "linkPackageDependencies c = Inr (n, c')"
  shows "outage c = None \<and> c' = c\<lparr>graph := snd (linkQuery (graph c))\<rparr>"
proof (cases "outage c")
  case None
  from executeQuery_ok [OF None, of linkQuery] assms show ?thesis
    by (simp add: linkPackageDependencies_def None)
next
  case (Some e)
  from executeQuery_fail [OF Some, of linkQuery] assms show ?thesis
    by (simp add: linkPackageDependencies_def)
qed

lemma reachable_invariants:
  "reachable c \<Longrightarrow> derived_from_project (graph c) \<and> unique_edges (graph c)"
proof (induction rule: reachable.induct)
  case (cleared c)
  then show ?case
    by (simp add: derived_from_project_def unique_edges_def empty_store_def)
next
  case (built c parsedData ok c')
  from buildProjectGraph_cases [OF built.hyps(2)]
  have "graph c' = buildWrites parsedData (graph c)"
    by simp
  with built.IH show ?case
    by (simp add: derived_from_project_buildWrites unique_edges_buildWrites)
next
  case (linked c n c')
  from linkPackageDependencies_cases [OF linked.hyps(2)]
  have "graph c' = snd (linkQuery (graph c))"
    by simp
  with linked.IH show ?case
    by (simp add: derived_from_project_linkQuery unique_edges_linkQuery)
next
  case (reconnected c c')
  then show ?case by simp
qed

lemma analyzeProject_reachable:
  assumes "reachable c" and "analyzeProject c parsedData = Inr c'"
  shows "reachable c'"
proof -
  from assms(2) obtain ok c1 n where b: "buildProjectGraph c parsedData = Inr (ok, c1)"
    and l: "linkPackageDependencies c1 = Inr (n, c')"
    by (auto simp: analyzeProject_def split: sum.splits)
  from assms(1) b have "reachable c1"
    by (rule reachable.built)
  then show ?thesis
    using l by (rule reachable.linked)
qed

lemma analyzeProjects_reachable:
  "reachable c \<Longrightarrow> analyzeProjects c ms = Inr c' \<Longrightarrow> reachable c'"
proof (induction ms arbitrary: c)
  case Nil
  then show ?case by simp
next
  case (Cons m ms)
  from Cons.prems(2) obtain c1 where one: "analyzeProject c m = Inr c1"
    and rest: "analyzeProjects c1 ms = Inr c'"
    by (auto split: sum.splits)
  from Cons.prems(1) one have "reachable c1"
    by (rule analyzeProject_reachable)
  then show ?case
    using rest by (rule Cons.IH)
qed

section \<open>The sample stores\<close>

lemmas sample_eval =
  auth_manifest_def user_manifest_def package_json_def caret_dep_def js_project_def
  js_package_def js_file_def direct_to_def derived_to_def services_store_def
  services_client_def installed_client_def
  mutual_store_def mutual_client_def

lemmas builder_eval =
  low_word_def analyzeProject_def buildProjectGraph_def createProjectNode_def createDependencyNodes_def
  createFileNode_def linkPackageDependencies_def executeQuery_def
  projectQuery_def packageQuery_def relationshipQuery_def fileQuery_def linkQuery_def
  link_rows_def link_step_def project_edges_def derived_edge_def merge_set_def merge_on_create_def
  or_else_def new_edge_def split_pop_def empty_store_def Let_def

lemma services_run:
  "analyzeProjects installed_client [auth_manifest, user_manifest] = Inr services_client"
  by (simp add: sample_eval builder_eval)

lemma services_relink:
  "linkPackageDependencies services_client = Inr (JNum 1, services_client)"
  by (simp add: sample_eval builder_eval)

lemma services_conflicts:
  "findVersionConflictsBasic services_client =
     Inr [\<lparr>packageName = ''express'', dependencies =
       [\<lparr>project = ''authService'', version = ''^4.18.0'', type = ''production''\<rparr>,
        \<lparr>project = ''userService'', version = ''^4.17.0'', type = ''production''\<rparr>]\<rparr>]"
  by (simp add: sample_eval findVersionConflictsBasic_def executeQuery_def conflictsBasicQuery_def
      group_names_def collect_deps_def project_edges_def distinct_first_def Let_def)

lemma services_no_cycles: "cyclePaths (graph services_client) = []"
  by (simp add: sample_eval cyclePaths_def)

lemma services_express:
  "findPackageConflict services_client ''express'' =
     Inr (Some \<lparr>packageName = ''express'', dependencies =
       [\<lparr>project = ''authService'', version = ''^4.18.0'', type = ''production''\<rparr>,
        \<lparr>project = ''userService'', version = ''^4.17.0'', type = ''production''\<rparr>]\<rparr>)"
  by (simp add: sample_eval findPackageConflict_def executeQuery_def packageConflictQuery_def
      collect_deps_def project_edges_def distinct_first_def Let_def)

lemma services_auth:
  "findPackageConflict services_client ''authService'' = Inr None"
  by (simp add: sample_eval findPackageConflict_def executeQuery_def packageConflictQuery_def
      collect_deps_def project_edges_def distinct_first_def Let_def)

lemma services_lodash:
  "findPackageConflict services_client ''lodash'' = Inr None"
  by (simp add: sample_eval findPackageConflict_def executeQuery_def packageConflictQuery_def
      collect_deps_def project_edges_def distinct_first_def Let_def)

lemma services_unique: "unique_edges (graph services_client)"
  by (simp add: sample_eval unique_edges_def)

lemma mutual_run:
  "analyzeProjects installed_client
     [package_json ''D'' [caret_dep ''E'' ''1.0.0''], package_json ''E'' [caret_dep ''D'' ''1.0.0'']] =
   Inr mutual_client"
  by (simp add: sample_eval builder_eval)

lemma mutual_direct:
  "findDirectCircularDependencies mutual_client = Inr [\<lparr>package1 = ''D'', package2 = ''E''\<rparr>]"
  by (simp add: sample_eval findDirectCircularDependencies_def
      executeQuery_def directCyclesQuery_def package_edges_def)

lemma mutual_unique: "unique_edges (graph mutual_client)"
  by (simp add: sample_eval unique_edges_def)

lemma installed_reachable: "reachable installed_client"
  by (rule reachable.cleared) (simp add: installed_client_def)

lemma services_reachable: "reachable services_client"
  using installed_reachable services_run by (rule analyzeProjects_reachable)

lemma mutual_reachable: "reachable mutual_client"
  using installed_reachable mutual_run by (rule analyzeProjects_reachable)

section \<open>Ingesting a manifest twice\<close>

text \<open>
  C7. When \<open>buildProjectGraph\<close> has run with a manifest record, a second run with the
  same record succeeds and leaves the numbers of Project, Package and File nodes and of
  \<open>DEPENDS_ON\<close> and \<open>HAS_FILE\<close> relationships as the first run left them.
\<close>

theorem buildProjectGraph_twice_counts:
  assumes "buildProjectGraph c parsedData = Inr (ok, c1)"
  shows "\<exists>c2. buildProjectGraph c1 parsedData = Inr (True, c2) \<and>
           countGraph (graph c2) = countGraph (graph c1)"
proof -
  from buildProjectGraph_cases [OF assms]
  have up: "outage c = None" and c1: "c1 = c\<lparr>graph := buildWrites parsedData (graph c)\<rparr>"
    by simp_all
  have up1: "outage c1 = None"
    using up c1 by simp
  have "buildProjectGraph c1 parsedData =
      Inr (True, c1\<lparr>graph := buildWrites parsedData (graph c1)\<rparr>)"
    using up1 by (rule buildProjectGraph_ok)
  moreover have "countGraph (graph (c1\<lparr>graph := buildWrites parsedData (graph c1)\<rparr>)) =
      countGraph (graph c1)"
    by (simp add: c1 buildWrites_idempotent_counts)
  ultimately show ?thesis
    by blast
qed

theorem buildProjectGraph_twice_counts_witness:
  "\<exists>c1 c2. buildProjectGraph installed_client user_manifest = Inr (True, c1) \<and>
     buildProjectGraph c1 user_manifest = Inr (True, c2) \<and>
     countGraph (graph c2) = countGraph (graph c1) \<and>
     countGraph (graph c1) =
       \<lparr>projectNodes = 1, packageNodes = 2, fileNodes = 1, dependsOnEdges = 2,
        hasFileEdges = 1\<rparr>"
proof -
  let ?c1 = "installed_client\<lparr>graph := buildWrites user_manifest (graph installed_client)\<rparr>"
  have first: "buildProjectGraph installed_client user_manifest = Inr (True, ?c1)"
    by (rule buildProjectGraph_ok) (simp add: installed_client_def)
  from buildProjectGraph_twice_counts [OF first]
  obtain c2 where second: "buildProjectGraph ?c1 user_manifest = Inr (True, c2)"
    and same: "countGraph (graph c2) = countGraph (graph ?c1)"
    by blast
  have counts: "countGraph (graph ?c1) =
      \<lparr>projectNodes = 1, packageNodes = 2, fileNodes = 1, dependsOnEdges = 2,
       hasFileEdges = 1\<rparr>"
    by (simp add: countGraph_def buildWrites_def depStep_def sample_eval builder_eval)
  from first second same counts show ?thesis
    by blast
qed

section \<open>Derived relationships\<close>

text \<open>
  C1, as amended. After a run of \<open>linkPackageDependencies\<close> on a store that the tool
  has built, every relationship tagged \<open>derived\<close> leads from the package whose name is
  also the name of a project to a package on which that project depends directly. The
  target need not be the name of a project.
\<close>

theorem derived_edges_from_projects:
  assumes "reachable c" and "linkPackageDependencies c = Inr (n, c')"
  shows "derived_from_project (graph c')"
proof -
  from assms have "reachable c'"
    by (rule reachable.linked)
  then show ?thesis
    by (simp add: reachable_invariants)
qed

theorem derived_edges_from_projects_witness:
  "reachable services_client \<and>
   linkPackageDependencies services_client = Inr (JNum 1, services_client) \<and>
   derived_from_project (graph services_client)"
  using services_reachable services_relink
    derived_edges_from_projects [OF services_reachable services_relink]
  by simp

text \<open>
  C1, as stated, fails: after \<open>authService\<close> and \<open>userService\<close> are loaded, the link
  run has derived the relationship from package \<open>authService\<close> to package
  \<open>express\<close>, and no project is named \<open>express\<close>.
\<close>

theorem derived_target_not_project:
  "analyzeProjects installed_client [auth_manifest, user_manifest] = Inr services_client \<and>
   linkPackageDependencies services_client = Inr (JNum 1, services_client) \<and>
   derived_to ''authService'' ''express'' ''^4.18.0'' \<in> set (depends_on (graph services_client)) \<and>
   source (snd (derived_to ''authService'' ''express'' ''^4.18.0'')) = Some ''derived'' \<and>
   ''express'' \<notin> keys (projects (graph services_client)) \<and>
   \<not> derived_between_projects (graph services_client)"
proof -
  have edge: "derived_to ''authService'' ''express'' ''^4.18.0''
      \<in> set (depends_on (graph services_client))"
    by (simp add: sample_eval)
  have tagged: "source (snd (derived_to ''authService'' ''express'' ''^4.18.0'')) = Some ''derived''"
    by (simp add: derived_to_def)
  have no_project: "''express'' \<notin> keys (projects (graph services_client))"
    by (simp add: sample_eval keys_def)
  have "\<not> derived_between_projects (graph services_client)"
  proof
    assume "derived_between_projects (graph services_client)"
    with edge tagged have "\<exists>p d. PackageNode ''express'' = PackageNode d \<and>
        d \<in> keys (projects (graph services_client))"
      unfolding derived_between_projects_def derived_to_def by fastforce
    with no_project show False
      by simp
  qed
  with services_run services_relink edge tagged no_project show ?thesis
    by simp
qed

section \<open>The two conflict strategies\<close>

lemma distinct_first_id: "distinct xs \<Longrightarrow> distinct_first xs = xs"
  by (simp add: distinct_first_def distinct_remdups_id)

lemma length_distinct_first: "length (distinct_first xs) = card (set xs)"
  by (simp add: distinct_first_def length_remdups_card_conv)

lemma distinct_of_map: "distinct (map f xs) \<Longrightarrow> distinct xs"
  by (simp add: distinct_map)

lemma in_collect_deps:
  "x \<in> set (collect_deps g n) \<longleftrightarrow>
     (\<exists>p r. ((ProjectNode p, PackageNode n), r) \<in> set (depends_on g) \<and>
        x = \<lparr>project = p, version = versionConstraint r, type = r_type r\<rparr>)"
proof -
  have "x \<in> set (collect_deps g n) \<longleftrightarrow>
      (\<exists>p r. (p, n, r) \<in> set (project_edges g) \<and>
        x = \<lparr>project = p, version = versionConstraint r, type = r_type r\<rparr>)"
    by (force simp: collect_deps_def)
  then show ?thesis
    by (simp add: in_project_edges)
qed

lemma collect_deps_projects:
  "map project (collect_deps g n) =
     map fst (filter (\<lambda>(p, d, r). d = n) (project_edges g))"
proof -
  have "map project [\<lparr>project = p, version = versionConstraint r, type = r_type r\<rparr>.
       (p, d, r) \<leftarrow> xs, d = n] = map fst (filter (\<lambda>(p, d, r). d = n) xs)"
    for xs :: "(string \<times> string \<times> edge_props) list"
    by (induction xs) auto
  then show ?thesis
    by (simp add: collect_deps_def)
qed

lemma distinct_project_edge_keys:
  assumes "distinct (map fst es)"
  shows "distinct (map (\<lambda>(p, d, r). (p, d)) (List.map_filter project_edge es))"
  using assms
proof (induction es)
  case Nil
  then show ?case by simp
next
  case (Cons e es)
  show ?case
  proof (cases "project_edge e")
    case None
    with Cons show ?thesis by simp
  next
    case (Some row)
    obtain p d r where row: "row = (p, d, r)"
      by (cases row) auto
    from Some row have e: "e = ((ProjectNode p, PackageNode d), r)"
      by (simp add: project_edge_Some)
    have "(p, d) \<notin> (\<lambda>(p, d, r). (p, d)) ` set (List.map_filter project_edge es)"
    proof
      assume "(p, d) \<in> (\<lambda>(p, d, r). (p, d)) ` set (List.map_filter project_edge es)"
      then obtain r' where "(p, d, r') \<in> set (List.map_filter project_edge es)"
        by auto
      then have "((ProjectNode p, PackageNode d), r') \<in> set es"
        by (auto simp: in_map_filter project_edge_Some)
      then have "fst e \<in> fst ` set es"
        by (force simp: e)
      with Cons.prems show False
        by simp
    qed
    with Cons Some row show ?thesis
      by simp
  qed
qed

lemma distinct_collect_deps:
  assumes "unique_edges g"
  shows "distinct (collect_deps g n)"
proof -
  let ?rows = "filter (\<lambda>(p, d, r). d = n) (project_edges g)"
  have "distinct (map (\<lambda>(p, d, r). (p, d)) (project_edges g))"
    using assms unfolding unique_edges_def project_edges_def
    by (rule distinct_project_edge_keys)
  then have "distinct (map (\<lambda>(p, d, r). (p, d)) ?rows)"
    by (rule distinct_map_filter)
  moreover have "map (\<lambda>(p, d, r). (p, d)) ?rows = map (\<lambda>p. (p, n)) (map fst ?rows)"
    by (induction "project_edges g") auto
  ultimately have "distinct (map (\<lambda>p. (p, n)) (map fst ?rows))"
    by simp
  then have "distinct (map fst ?rows)"
    by (rule distinct_of_map)
  then have "distinct (map project (collect_deps g n))"
    by (simp add: collect_deps_projects)
  then show ?thesis
    by (rule distinct_of_map)
qed

lemma conflict_queries_agree:
  assumes "unique_edges g"
  shows "filter (\<lambda>record. length (distinct_first (map version (dependencies record))) > 1)
           (fst (conflictsBasicQuery g)) = fst (conflictsQuery g)"
proof -
  have same: "distinct_first (collect_deps g n) = collect_deps g n" for n
    using assms by (intro distinct_first_id distinct_collect_deps)
  show ?thesis
    by (simp add: conflictsBasicQuery_def conflictsQuery_def Let_def same filter_sort
        length_distinct_first)
qed

lemma includes_apoc: "includes_str unknownFunction ''apoc''"
  by (simp add: unknownFunction_def startsWith_def)

text \<open>
  C3. On a store with at most one \<open>DEPENDS_ON\<close> relationship between two nodes, as
  every store the tool builds is, \<open>findVersionConflicts\<close> and
  \<open>findVersionConflictsBasic\<close> return the same: the same error, or the same packages
  in the same order with the same lists of dependencies.
\<close>

theorem findVersionConflicts_basic_agree:
  assumes "unique_edges (graph c)"
  shows "findVersionConflicts c = findVersionConflictsBasic c"
proof (cases "outage c")
  case (Some e)
  then have "findVersionConflictsBasic c = Inl e"
    by (simp add: findVersionConflictsBasic_def executeQuery_fail)
  with Some show ?thesis
    by (simp add: findVersionConflicts_def executeApocQuery_def executeQuery_fail)
next
  case None
  show ?thesis
  proof (cases "apocInstalled c")
    case False
    with None show ?thesis
      by (simp add: findVersionConflicts_def executeApocQuery_def includes_apoc)
  next
    case True
    have primary: "findVersionConflicts c = Inr (fst (conflictsQuery (graph c)))"
      using None True
      by (simp add: findVersionConflicts_def executeApocQuery_def executeQuery_ok)
    have basic: "findVersionConflictsBasic c =
        Inr (filter (\<lambda>record. length (distinct_first (map version (dependencies record))) > 1)
              (fst (conflictsBasicQuery (graph c))))"
      using None
      by (simp add: findVersionConflictsBasic_def executeQuery_ok Let_def)
    from primary basic conflict_queries_agree [OF assms] show ?thesis
      by simp
  qed
qed

theorem findVersionConflicts_basic_agree_witness:
  "reachable services_client \<and> unique_edges (graph services_client) \<and>
   apocInstalled services_client \<and>
   findVersionConflicts services_client = findVersionConflictsBasic services_client \<and>
   findVersionConflictsBasic services_client =
     Inr [\<lparr>packageName = ''express'', dependencies =
       [\<lparr>project = ''authService'', version = ''^4.18.0'', type = ''production''\<rparr>,
        \<lparr>project = ''userService'', version = ''^4.17.0'', type = ''production''\<rparr>]\<rparr>]"
  using services_reachable services_unique services_conflicts
    findVersionConflicts_basic_agree [OF services_unique]
  by (simp add: services_client_def)

section \<open>Conflicts of one package\<close>

lemma collect_deps_set: "set (collect_deps g n) = dependents_of g n"
proof (rule set_eqI)
  fix x
  show "x \<in> set (collect_deps g n) \<longleftrightarrow> x \<in> dependents_of g n"
    unfolding in_collect_deps dependents_of_def by blast
qed

lemma collect_deps_versions: "set (map version (collect_deps g n)) = constraints_on g n"
proof -
  have "set (map version (collect_deps g n)) = version ` dependents_of g n"
    by (simp add: collect_deps_set)
  also have "\<dots> = constraints_on g n"
  proof (rule set_eqI)
    fix v
    have "v \<in> version ` dependents_of g n \<longleftrightarrow>
        (\<exists>p r. ((ProjectNode p, PackageNode n), r) \<in> set (depends_on g) \<and>
           v = version \<lparr>project = p, version = versionConstraint r, type = r_type r\<rparr>)"
      unfolding dependents_of_def by blast
    then show "v \<in> version ` dependents_of g n \<longleftrightarrow> v \<in> constraints_on g n"
      unfolding constraints_on_def by auto
  qed
  finally show ?thesis .
qed

lemma findPackageConflict_ok:
  assumes "outage c = None"
  shows "findPackageConflict c name =
    (if card (constraints_on (graph c) name) \<le> 1 then Inr None
     else Inr (Some \<lparr>packageName = name, dependencies = collect_deps (graph c) name\<rparr>))"
proof (cases "collect_deps (graph c) name = []")
  case True
  then have "constraints_on (graph c) name = {}"
    using collect_deps_versions [of "graph c" name] by simp
  with True assms show ?thesis
    by (simp add: findPackageConflict_def executeQuery_ok packageConflictQuery_def)
next
  case False
  have len: "length (distinct_first (map version (collect_deps (graph c) name))) =
      card (constraints_on (graph c) name)"
    by (simp only: length_distinct_first collect_deps_versions)
  have "constraints_on (graph c) name \<noteq> {}"
    using False collect_deps_versions [of "graph c" name] by auto
  moreover have "finite (constraints_on (graph c) name)"
    using collect_deps_versions [of "graph c" name, symmetric] by simp
  ultimately have "card (constraints_on (graph c) name) \<noteq> 0"
    by simp
  with False assms len show ?thesis
    by (auto simp: findPackageConflict_def executeQuery_ok packageConflictQuery_def Let_def)
qed

text \<open>
  C5. When the query does not fail, \<open>findPackageConflict\<close> returns \<open>null\<close> exactly
  when the projects that depend on the package do so under at most one version
  constraint (none when no project depends on it or it does not exist); otherwise it
  returns the package name with the entries of all projects that depend on it.
\<close>

theorem findPackageConflict_absent_iff:
  assumes "outage c = None"
  shows "(findPackageConflict c name = Inr None \<longleftrightarrow> card (constraints_on (graph c) name) \<le> 1) \<and>
    (card (constraints_on (graph c) name) > 1 \<longrightarrow>
      (\<exists>deps. findPackageConflict c name = Inr (Some \<lparr>packageName = name, dependencies = deps\<rparr>) \<and>
         set deps = dependents_of (graph c) name))"
  using findPackageConflict_ok [OF assms, of name]
  by (auto simp: collect_deps_set)

theorem findPackageConflict_absent_iff_witness:
  "outage services_client = None \<and>
   findPackageConflict services_client ''authService'' = Inr None \<and>
   card (constraints_on (graph services_client) ''authService'') \<le> 1 \<and>
   findPackageConflict services_client ''lodash'' = Inr None \<and>
   card (constraints_on (graph services_client) ''lodash'') \<le> 1 \<and>
   findPackageConflict services_client ''express'' =
     Inr (Some \<lparr>packageName = ''express'', dependencies =
       [\<lparr>project = ''authService'', version = ''^4.18.0'', type = ''production''\<rparr>,
        \<lparr>project = ''userService'', version = ''^4.17.0'', type = ''production''\<rparr>]\<rparr>) \<and>
   1 < card (constraints_on (graph services_client) ''express'')"
proof -
  have up: "outage services_client = None"
    by (simp add: services_client_def)
  from findPackageConflict_absent_iff [OF up, of "''authService''"] services_auth
  have one: "card (constraints_on (graph services_client) ''authService'') \<le> 1"
    by simp
  from findPackageConflict_absent_iff [OF up, of "''lodash''"] services_lodash
  have none: "card (constraints_on (graph services_client) ''lodash'') \<le> 1"
    by simp
  from findPackageConflict_absent_iff [OF up, of "''express''"] services_express
  have two: "1 < card (constraints_on (graph services_client) ''express'')"
    by (simp add: not_le)
  from up services_auth one services_lodash none services_express two show ?thesis
    by simp
qed

section \<open>Direct cycles\<close>

lemma concat_map_if_const:
  "concat (map (\<lambda>x. if P x then ys else []) xs) = concat (replicate (length (filter P xs)) ys)"
  by (induction xs) auto

lemma concat_map_if_single:
  "concat (map (\<lambda>x. if P x then [f x] else []) xs) = map f (filter P xs)"
  by (induction xs) auto

lemma distinct_package_edge_keys:
  assumes "distinct (map fst es)"
  shows "distinct (map (\<lambda>(a, b, r). (a, b)) (List.map_filter package_edge es))"
  using assms
proof (induction es)
  case Nil
  then show ?case by simp
next
  case (Cons e es)
  show ?case
  proof (cases "package_edge e")
    case None
    with Cons show ?thesis by simp
  next
    case (Some row)
    obtain a b r where row: "row = (a, b, r)"
      by (cases row) auto
    from Some row have e: "e = ((PackageNode a, PackageNode b), r)"
      by (simp add: package_edge_Some)
    have "(a, b) \<notin> (\<lambda>(a, b, r). (a, b)) ` set (List.map_filter package_edge es)"
    proof
      assume "(a, b) \<in> (\<lambda>(a, b, r). (a, b)) ` set (List.map_filter package_edge es)"
      then obtain r' where "(a, b, r') \<in> set (List.map_filter package_edge es)"
        by auto
      then have "((PackageNode a, PackageNode b), r') \<in> set es"
        by (auto simp: in_map_filter package_edge_Some)
      then have "fst e \<in> fst ` set es"
        by (force simp: e)
      with Cons.prems show False
        by simp
    qed
    with Cons Some row show ?thesis
      by simp
  qed
qed

lemma count_key:
  assumes "distinct (map f xs)"
  shows "length (filter (\<lambda>x. f x = k) xs) = (if k \<in> f ` set xs then 1 else 0)"
  using assms by (induction xs) auto

lemma directCycles_set:
  "set (fst (directCyclesQuery g)) =
     {\<lparr>package1 = a, package2 = b\<rparr> | a b. a < b \<and> mutual g a b}"
proof (rule set_eqI)
  fix x
  have "x \<in> set (fst (directCyclesQuery g)) \<longleftrightarrow>
      (\<exists>a b r r'. (a, b, r) \<in> set (package_edges g) \<and> (b, a, r') \<in> set (package_edges g) \<and>
         a < b \<and> x = \<lparr>package1 = a, package2 = b\<rparr>)"
    by (force simp: directCyclesQuery_def)
  also have "\<dots> \<longleftrightarrow> (\<exists>a b. a < b \<and> mutual g a b \<and> x = \<lparr>package1 = a, package2 = b\<rparr>)"
    unfolding mutual_def keys_def in_package_edges by force
  finally show "x \<in> set (fst (directCyclesQuery g)) \<longleftrightarrow>
      x \<in> {\<lparr>package1 = a, package2 = b\<rparr> | a b. a < b \<and> mutual g a b}"
    by blast
qed

lemma directCycles_distinct:
  assumes "unique_edges g"
  shows "distinct (fst (directCyclesQuery g))"
proof -
  let ?pe = "package_edges g"
  let ?pair = "\<lambda>(a, b, r). (a, b)"
  have dk: "distinct (map ?pair ?pe)"
    using assms unfolding unique_edges_def package_edges_def
    by (rule distinct_package_edge_keys)
  have dk': "distinct (map (\<lambda>(q2, q1, r). (q1, q2)) ?pe)"
  proof -
    have swapped: "distinct (map prod.swap ys)" if "distinct ys"
      for ys :: "(string \<times> string) list"
      using that by (simp add: distinct_map)
    have "map (\<lambda>(q2, q1, r). (q1, q2)) ?pe = map prod.swap (map ?pair ?pe)"
      by (induction ?pe) auto
    with swapped [OF dk] show ?thesis
      by (simp only:)
  qed
  have inner: "concat (map (\<lambda>(q2, q1, r). if q2 = p2 \<and> q1 = p1 then (if p1 < p2 then [x] else []) else []) ?pe) =
      (if (p2, p1) \<in> ?pair ` set ?pe \<and> p1 < p2 then [x] else [])" for p1 p2 and x :: direct_cycle
  proof -
    have "concat (map (\<lambda>(q2, q1, r). if q2 = p2 \<and> q1 = p1 then (if p1 < p2 then [x] else []) else []) ?pe) =
        concat (map (\<lambda>e. if (\<lambda>(q2, q1, r). (q1, q2)) e = (p1, p2) then (if p1 < p2 then [x] else []) else []) ?pe)"
      by (intro arg_cong [where f = concat] map_cong) (auto split: if_splits)
    also have "\<dots> = concat (replicate (length (filter (\<lambda>e. (\<lambda>(q2, q1, r). (q1, q2)) e = (p1, p2)) ?pe))
        (if p1 < p2 then [x] else []))"
      by (rule concat_map_if_const)
    also have "length (filter (\<lambda>e. (\<lambda>(q2, q1, r). (q1, q2)) e = (p1, p2)) ?pe) =
        (if (p1, p2) \<in> (\<lambda>(q2, q1, r). (q1, q2)) ` set ?pe then 1 else 0)"
      using dk' by (rule count_key)
    also have "(p1, p2) \<in> (\<lambda>(q2, q1, r). (q1, q2)) ` set ?pe \<longleftrightarrow> (p2, p1) \<in> ?pair ` set ?pe"
      by force
    finally show ?thesis
      by simp
  qed
  have "fst (directCyclesQuery g) =
      concat (map (\<lambda>(p1, p2, r). if (p2, p1) \<in> ?pair ` set ?pe \<and> p1 < p2
                     then [\<lparr>package1 = p1, package2 = p2\<rparr>] else []) ?pe)"
    by (simp add: directCyclesQuery_def inner cong: if_cong)
  also have "\<dots> = concat (map (\<lambda>e. if (case e of (p1, p2, r) \<Rightarrow> (p2, p1) \<in> ?pair ` set ?pe \<and> p1 < p2)
                     then [(case e of (p1, p2, r) \<Rightarrow> \<lparr>package1 = p1, package2 = p2\<rparr>)] else []) ?pe)"
    by (simp add: case_prod_unfold cong: if_cong)
  also have "\<dots> = map (\<lambda>e. case e of (p1, p2, r) \<Rightarrow> \<lparr>package1 = p1, package2 = p2\<rparr>)
      (filter (\<lambda>e. case e of (p1, p2, r) \<Rightarrow> (p2, p1) \<in> ?pair ` set ?pe \<and> p1 < p2) ?pe)"
    by (rule concat_map_if_single)
  finally have shape: "fst (directCyclesQuery g) =
      map ((\<lambda>(a, b). \<lparr>package1 = a, package2 = b\<rparr>) \<circ> ?pair)
        (filter (\<lambda>e. case e of (p1, p2, r) \<Rightarrow> (p2, p1) \<in> ?pair ` set ?pe \<and> p1 < p2) ?pe)"
    by (simp add: comp_def case_prod_unfold)
  have "distinct (map ?pair (filter (\<lambda>e. case e of (p1, p2, r) \<Rightarrow> (p2, p1) \<in> ?pair ` set ?pe \<and> p1 < p2) ?pe))"
    using dk by (rule distinct_map_filter)
  moreover have "inj (\<lambda>(a, b). \<lparr>package1 = a, package2 = b\<rparr>)"
    by (auto simp: inj_on_def)
  ultimately show ?thesis
    unfolding shape map_map [symmetric]
    by (simp add: distinct_map inj_on_def del: map_map)
qed

lemma distinct_singleton:
  assumes "distinct xs" and "set xs = {x}"
  shows "xs = [x]"
proof (cases xs)
  case Nil
  with assms(2) show ?thesis by simp
next
  case (Cons y ys)
  with assms have "y = x" and "set ys \<subseteq> {x}" and "y \<notin> set ys"
    by auto
  then have "ys = []"
    by (cases ys) auto
  with Cons \<open>y = x\<close> show ?thesis
    by simp
qed

text \<open>
  C6. When the query does not fail, on a store with at most one \<open>DEPENDS_ON\<close>
  relationship between two nodes, \<open>findDirectCircularDependencies\<close> returns every pair
  of packages that depend on each other, each pair once, the smaller name first
  (fields \<open>package1\<close> and \<open>package2\<close>). When \<open>D\<close> and \<open>E\<close> are the only
  packages that depend on each other, the result is the one pair of \<open>D\<close> and \<open>E\<close>.
\<close>

theorem findDirectCircularDependencies_pairs:
  assumes "outage c = None" and "unique_edges (graph c)"
  shows "(\<exists>cycles. findDirectCircularDependencies c = Inr cycles \<and> distinct cycles \<and>
       set cycles = {\<lparr>package1 = a, package2 = b\<rparr> | a b. a < b \<and> mutual (graph c) a b}) \<and>
     (mutual (graph c) ''D'' ''E'' \<and>
      (\<forall>a b. mutual (graph c) a b \<longrightarrow> {a, b} = {''D'', ''E''}) \<longrightarrow>
      findDirectCircularDependencies c = Inr [\<lparr>package1 = ''D'', package2 = ''E''\<rparr>])"
proof -
  have same: "map (\<lambda>record. \<lparr>package1 = package1 record, package2 = package2 record\<rparr>) rs = rs"
    for rs :: "direct_cycle list"
    by (induction rs) auto
  let ?cycles = "fst (directCyclesQuery (graph c))"
  have run: "findDirectCircularDependencies c = Inr ?cycles"
    using assms(1) by (simp add: findDirectCircularDependencies_def executeQuery_ok same)
  have dist: "distinct ?cycles"
    using assms(2) by (rule directCycles_distinct)
  have pairs: "set ?cycles = {\<lparr>package1 = a, package2 = b\<rparr> | a b. a < b \<and> mutual (graph c) a b}"
    by (rule directCycles_set)
  have only: "?cycles = [\<lparr>package1 = ''D'', package2 = ''E''\<rparr>]"
    if de: "mutual (graph c) ''D'' ''E''"
      and no_other: "\<forall>a b. mutual (graph c) a b \<longrightarrow> {a, b} = {''D'', ''E''}"
  proof -
    have lt: "(''D''::string) < ''E''"
      by simp
    have nlt: "\<not> (''E''::string) < ''D''"
      by simp
    have char: "(a < b \<and> mutual (graph c) a b) = (a = ''D'' \<and> b = ''E'')" for a b :: string
    proof
      assume ab: "a < b \<and> mutual (graph c) a b"
      with no_other have "{a, b} = {''D'', ''E''}"
        by blast
      then have "a = ''D'' \<and> b = ''E'' \<or> a = ''E'' \<and> b = ''D''"
        unfolding doubleton_eq_iff .
      with ab nlt show "a = ''D'' \<and> b = ''E''"
        by blast
    next
      assume "a = ''D'' \<and> b = ''E''"
      with de lt show "a < b \<and> mutual (graph c) a b"
        by blast
    qed
    have "set ?cycles = {\<lparr>package1 = a, package2 = b\<rparr> | a b. a = ''D'' \<and> b = ''E''}"
      unfolding pairs char ..
    also have "\<dots> = {\<lparr>package1 = ''D'', package2 = ''E''\<rparr>}"
      by blast
    finally show ?thesis
      using dist by (intro distinct_singleton)
  qed
  show ?thesis
  proof (intro conjI impI)
    from run dist pairs
    show "\<exists>cycles. findDirectCircularDependencies c = Inr cycles \<and> distinct cycles \<and>
       set cycles = {\<lparr>package1 = a, package2 = b\<rparr> | a b. a < b \<and> mutual (graph c) a b}"
      by blast
  next
    assume "mutual (graph c) ''D'' ''E'' \<and>
      (\<forall>a b. mutual (graph c) a b \<longrightarrow> {a, b} = {''D'', ''E''})"
    then have "?cycles = [\<lparr>package1 = ''D'', package2 = ''E''\<rparr>]"
      using only by blast
    then show "findDirectCircularDependencies c = Inr [\<lparr>package1 = ''D'', package2 = ''E''\<rparr>]"
      by (simp only: run)
  qed
qed

theorem findDirectCircularDependencies_pairs_witness:
  "analyzeProjects installed_client
     [package_json ''D'' [caret_dep ''E'' ''1.0.0''],
      package_json ''E'' [caret_dep ''D'' ''1.0.0'']] = Inr mutual_client \<and>
   outage mutual_client = None \<and> unique_edges (graph mutual_client) \<and>
   mutual (graph mutual_client) ''D'' ''E'' \<and>
   findDirectCircularDependencies mutual_client = Inr [\<lparr>package1 = ''D'', package2 = ''E''\<rparr>]"
proof -
  have up: "outage mutual_client = None"
    by (simp add: mutual_client_def)
  have ks: "keys (depends_on (graph mutual_client)) =
      {(ProjectNode ''D'', PackageNode ''E''), (ProjectNode ''E'', PackageNode ''D''),
       (PackageNode ''D'', PackageNode ''E''), (PackageNode ''E'', PackageNode ''D'')}"
    by (simp add: keys_def sample_eval)
  have de: "mutual (graph mutual_client) ''D'' ''E''"
    unfolding mutual_def ks by simp
  have no_other: "\<forall>a b. mutual (graph mutual_client) a b \<longrightarrow> {a, b} = {''D'', ''E''}"
    unfolding mutual_def ks by auto
  from findDirectCircularDependencies_pairs [OF up mutual_unique] de no_other
  have "findDirectCircularDependencies mutual_client = Inr [\<lparr>package1 = ''D'', package2 = ''E''\<rparr>]"
    by blast
  with mutual_run up mutual_unique de show ?thesis
    by simp
qed

section \<open>Statistics\<close>

text \<open>
  C8. What the code does on a store without a cycle of more than one relationship, when
  the query does not fail: the count of the row is an \<open>Integer\<close> object, which is not
  \<open>=== 0\<close>, so the branch that returns four zeros is not taken; the result carries
  the \<open>Integer\<close> zero, \<open>null\<close> for the shortest and the longest cycle, and the
  number zero for the average.
\<close>

theorem cycle_getStatistics_no_cycles:
  assumes "outage c = None" and "cyclePaths (graph c) = []"
  shows "cycle_getStatistics c =
    Inr (Some \<lparr>totalCycles = JInteger 0, shortestCycle = JNull, longestCycle = JNull,
                avgCycleLength = JNum 0\<rparr>)"
  using assms
  by (simp add: cycle_getStatistics_def executeQuery_ok cycleStatsQuery_def)

theorem cycle_getStatistics_no_cycles_witness:
  "reachable services_client \<and> outage services_client = None \<and>
   cyclePaths (graph services_client) = [] \<and>
   cycle_getStatistics services_client =
     Inr (Some \<lparr>totalCycles = JInteger 0, shortestCycle = JNull, longestCycle = JNull,
                 avgCycleLength = JNum 0\<rparr>) \<and>
   cycle_getStatistics services_client \<noteq> Inr (Some all_zero)"
proof -
  have up: "outage services_client = None"
    by (simp add: services_client_def)
  from cycle_getStatistics_no_cycles [OF up services_no_cycles]
  have result: "cycle_getStatistics services_client =
     Inr (Some \<lparr>totalCycles = JInteger 0, shortestCycle = JNull, longestCycle = JNull,
                 avgCycleLength = JNum 0\<rparr>)" .
  then have "cycle_getStatistics services_client \<noteq> Inr (Some all_zero)"
    by (simp add: all_zero_def)
  with services_reachable up services_no_cycles result show ?thesis
    by simp
qed

text \<open>
  C2. What the code does when the store query fails: both \<open>getStatistics\<close> catch the
  error and return \<open>null\<close>. No error ever reaches their caller, also not one thrown
  by \<open>findVersionConflicts\<close> inside the conflict detector's \<open>getStatistics\<close>.
\<close>

theorem getStatistics_swallows_failure:
  "(outage c = Some e \<longrightarrow>
      cycle_getStatistics c = Inr None \<and> conflict_getStatistics c = Inr None) \<and>
   cycle_getStatistics c \<noteq> Inl e' \<and> conflict_getStatistics c \<noteq> Inl e'"
proof -
  have down: "cycle_getStatistics c = Inr None \<and> conflict_getStatistics c = Inr None"
    if "outage c = Some e"
    using that
    by (simp add: cycle_getStatistics_def conflict_getStatistics_def executeQuery_fail)
  have cycle: "cycle_getStatistics c \<noteq> Inl e'"
    by (simp add: cycle_getStatistics_def split: sum.splits prod.splits list.splits jsval.splits)
  have conflict: "conflict_getStatistics c \<noteq> Inl e'"
    by (simp add: conflict_getStatistics_def split: sum.splits prod.splits list.splits)
  from down cycle conflict show ?thesis
    by blast
qed

theorem getStatistics_swallows_failure_witness:
  "outage (services_client\<lparr>outage := Some ''ServiceUnavailable''\<rparr>) = Some ''ServiceUnavailable'' \<and>
   cycle_getStatistics (services_client\<lparr>outage := Some ''ServiceUnavailable''\<rparr>) = Inr None \<and>
   conflict_getStatistics (services_client\<lparr>outage := Some ''ServiceUnavailable''\<rparr>) = Inr None \<and>
   findDirectCircularDependencies (services_client\<lparr>outage := Some ''ServiceUnavailable''\<rparr>) =
     Inl ''ServiceUnavailable''"
proof -
  let ?down = "services_client\<lparr>outage := Some ''ServiceUnavailable''\<rparr>"
  have down: "outage ?down = Some ''ServiceUnavailable''"
    by simp
  have sibling: "findDirectCircularDependencies ?down = Inl ''ServiceUnavailable''"
    by (simp add: findDirectCircularDependencies_def executeQuery_fail)
  from down getStatistics_swallows_failure [of ?down "''ServiceUnavailable''"] sibling
  show ?thesis
    by blast
qed

end
